theory Spec2Isabelle
  imports Complex_Main "HOL-Library.Log_Nat"
begin

section \<open>Python values used by monitor.py\<close>

text \<open>
  The exceptions that the modelled code can raise: a true division by zero, a float
  result too large for a double, and a list index out of range.
\<close>

datatype error = ZeroDivisionError | OverflowError | IndexError

subsection \<open>Floats: IEEE binary64 with round-to-nearest, ties to even\<close>

text \<open>
  A Python float is a binary64 value. \<open>Finite s m\<close> is the finite double with sign
  bit \<open>s\<close> (\<open>True\<close> for negative) and exact magnitude \<open>m\<close>, a rational number;
  \<open>Infinity s\<close> is the signed infinity and \<open>NaN\<close> is not-a-number.
\<close>

datatype pyfloat = Finite bool rat | Infinity bool | NaN

definition pow_int :: "int \<Rightarrow> int \<Rightarrow> rat" where
  "pow_int b k = (if 0 \<le> k then of_int b ^ nat k else 1 / of_int b ^ nat (- k))"

text \<open>\<open>ilen b x\<close> is the number of base-\<open>b\<close> digits of a positive integer.\<close>

function ilen :: "int \<Rightarrow> int \<Rightarrow> int" where
  "ilen b x = (if 0 < x \<and> 1 < b then ilen b (x div b) + 1 else 0)"
  by pat_completeness auto
termination
  by (relation "measure (\<lambda>(b, x). nat x)")
     (auto simp: int_div_less_self pos_imp_zdiv_nonneg_iff)

declare ilen.simps [simp del]

text \<open>
  \<open>ilog b y\<close> is the integer \<open>k\<close> with \<open>b^k \<le> y < b^(k+1)\<close>, for a positive rational
  \<open>y\<close>: the difference of the digit counts of numerator and denominator, or one less.
\<close>

definition ilog :: "int \<Rightarrow> rat \<Rightarrow> int" where
  "ilog b y = (case quotient_of y of (p, q) \<Rightarrow>
     (let k = ilen b p - ilen b q
      in if pow_int b k \<le> y then k else k - 1))"

definition round_half_even :: "rat \<Rightarrow> int" where
  "round_half_even y = (let n = \<lfloor>y\<rfloor>; r = y - of_int n
     in if r < 1 / 2 then n else if 1 / 2 < r then n + 1
        else if even n then n else n + 1)"

text \<open>
  The double nearest to a non-negative rational: 53 significant bits, the exponent of
  the last place never below \<open>-1074\<close> (subnormals), ties to the even significand.
  A result of \<open>2^1024\<close> or more stands for an overflow and is tested by the callers.
\<close>

definition round_binary64 :: "rat \<Rightarrow> rat" where
  "round_binary64 y = (if y \<le> 0 then 0 else
     (let e = max (ilog 2 y - 52) (- 1074)
      in of_int (round_half_even (y / pow_int 2 e)) * pow_int 2 e))"

definition float_overflow :: "rat \<Rightarrow> bool" where
  "float_overflow m = (2 ^ 1024 \<le> m)"

text \<open>
  \<open>a / b\<close> on two Python ints: the correctly rounded quotient; ZeroDivisionError for a
  zero divisor, OverflowError when the quotient is too large for a double.
\<close>

definition int_truediv :: "int \<Rightarrow> int \<Rightarrow> error + pyfloat" where
  "int_truediv a b =
     (if b = 0 then Inl ZeroDivisionError
      else (let m = round_binary64 (of_int \<bar>a\<bar> / of_int \<bar>b\<bar>)
            in if float_overflow m then Inl OverflowError
               else Inr (Finite ((a < 0) \<noteq> (b < 0)) m)))"

text \<open>\<open>x * y\<close> on two floats; an overflow gives an infinity, \<open>inf * 0\<close> gives nan.\<close>

fun float_mul :: "pyfloat \<Rightarrow> pyfloat \<Rightarrow> pyfloat" where
  "float_mul (Finite s1 m1) (Finite s2 m2) =
     (let m = round_binary64 (m1 * m2)
      in if float_overflow m then Infinity (s1 \<noteq> s2) else Finite (s1 \<noteq> s2) m)"
| "float_mul (Finite s1 m1) (Infinity s2) = (if m1 = 0 then NaN else Infinity (s1 \<noteq> s2))"
| "float_mul (Infinity s1) (Finite s2 m2) = (if m2 = 0 then NaN else Infinity (s1 \<noteq> s2))"
| "float_mul (Infinity s1) (Infinity s2) = Infinity (s1 \<noteq> s2)"
| "float_mul _ _ = NaN"

text \<open>
  \<open>round(x, ndigits)\<close> for \<open>ndigits \<ge> 1\<close>: the exact value of the double is rounded to
  \<open>ndigits\<close> decimal places, ties to even, and the decimal is read back as a double.
  Infinities and nan round to themselves, and so does every double when \<open>ndigits\<close>
  exceeds 323.
\<close>

definition py_round :: "pyfloat \<Rightarrow> nat \<Rightarrow> error + pyfloat" where
  "py_round x ndigits = (case x of
      Finite s m \<Rightarrow>
        (if 323 < ndigits then Inr x
         else (let r = round_binary64
                         (of_int (round_half_even (m * 10 ^ ndigits)) / 10 ^ ndigits)
               in if float_overflow r then Inl OverflowError else Inr (Finite s r)))
    | _ \<Rightarrow> Inr x)"

subsection \<open>Text of integers and floats\<close>

function str_int :: "int \<Rightarrow> string" where
  "str_int n = (if n < 0 then CHR ''-'' # str_int (- n)
     else if n < 10 then [char_of (48 + n)]
     else str_int (n div 10) @ [char_of (48 + n mod 10)])"
  by pat_completeness auto
termination
  by (relation "measure (\<lambda>n. if n < 0 then nat (- n) + 1 else nat n)") auto

declare str_int.simps [simp del]

text \<open>
  \<open>str\<close> of a float is its \<open>repr\<close>: the shortest decimal \<open>c * 10^e\<close> that reads back
  as the same double (the nearest one when two of the same length do), printed in
  positional notation when the decimal point falls within the 16 places after the
  first digit or the 4 places before it, and in exponent notation otherwise.
\<close>

function strip_zeros :: "int \<times> int \<Rightarrow> int \<times> int" where
  "strip_zeros (c, e) =
     (if 0 < c \<and> c mod 10 = 0 then strip_zeros (c div 10, e + 1) else (c, e))"
  by pat_completeness auto
termination
  by (relation "measure (\<lambda>(c, e). nat c)") auto

declare strip_zeros.simps [simp del]

definition reads_back :: "rat \<Rightarrow> int \<Rightarrow> int \<Rightarrow> bool" where
  "reads_back m c e = (round_binary64 (of_int c * pow_int 10 e) = m)"

fun shortest_decimal :: "rat \<Rightarrow> int list \<Rightarrow> int \<times> int" where
  "shortest_decimal m [] =
     (round_half_even (m / pow_int 10 (ilog 10 m - 16)), ilog 10 m - 16)"
| "shortest_decimal m (n # ns) =
     (let e = ilog 10 m + 1 - n; lo = \<lfloor>m / pow_int 10 e\<rfloor>; hi = lo + 1
      in if reads_back m lo e \<and> reads_back m hi e
         then (round_half_even (m / pow_int 10 e), e)
         else if reads_back m lo e then (lo, e)
         else if reads_back m hi e then (hi, e)
         else shortest_decimal m ns)"

definition float_repr_mag :: "rat \<Rightarrow> string" where
  "float_repr_mag m = (if m = 0 then ''0.0'' else
     (case strip_zeros (shortest_decimal m [1..16]) of (c, e) \<Rightarrow>
       (let ds = str_int c; n = int (length ds); decpt = e + n
        in if - 4 < decpt \<and> decpt \<le> 16 then
             (if decpt \<le> 0 then ''0.'' @ replicate (nat (- decpt)) CHR ''0'' @ ds
              else if n \<le> decpt then ds @ replicate (nat (decpt - n)) CHR ''0'' @ ''.0''
              else take (nat decpt) ds @ ''.'' @ drop (nat decpt) ds)
           else take 1 ds @ (if 1 < n then ''.'' @ drop 1 ds else [])
                @ ''e'' @ (if decpt - 1 < 0 then ''-'' else ''+'')
                @ (if \<bar>decpt - 1\<bar> < 10 then ''0'' else []) @ str_int \<bar>decpt - 1\<bar>)))"

fun float_str :: "pyfloat \<Rightarrow> string" where
  "float_str (Finite s m) = (if s then ''-'' else []) @ float_repr_mag m"
| "float_str (Infinity s) = (if s then ''-inf'' else ''inf'')"
| "float_str NaN = ''nan''"

section \<open>Node\<close>

record Node =
  mac_address :: string
  ip_address :: "string option"
  interface :: string
  vlan :: string
  name :: "string option"
  last_ping_successful :: bool
  successful_pings :: int
  failed_pings :: int

definition Node_init :: "string \<Rightarrow> string option \<Rightarrow> string \<Rightarrow> string \<Rightarrow> Node" where
  "Node_init mac ip iface vl =
     \<lparr>mac_address = mac, ip_address = ip, interface = iface, vlan = vl, name = None,
      last_ping_successful = False, successful_pings = 0, failed_pings = 0\<rparr>"

text \<open>\<open>__str__\<close>: the name when there is one, the address (possibly absent) otherwise.\<close>

definition Node_str :: "Node \<Rightarrow> string option" where
  "Node_str n = (if name n \<noteq> None then name n else ip_address n)"

text \<open>An optional string inside an f-string: \<open>None\<close> prints as the word None.\<close>

definition fmt_opt :: "string option \<Rightarrow> string" where
  "fmt_opt v = (case v of None \<Rightarrow> ''None'' | Some s \<Rightarrow> s)"

definition ping_command :: "Node \<Rightarrow> string" where
  "ping_command n = ''ping -n 1 -w 2 '' @ fmt_opt (ip_address n) @ '' >> output.txt''"

text \<open>
  \<open>ping\<close>, given the exit status \<open>response\<close> that \<open>os.system\<close> returned for
  \<open>ping_command\<close>.
\<close>

definition ping :: "int \<Rightarrow> Node \<Rightarrow> Node" where
  "ping response n =
     (if response = 0
      then n\<lparr>last_ping_successful := True, successful_pings := successful_pings n + 1\<rparr>
      else n\<lparr>last_ping_successful := False, failed_pings := failed_pings n + 1\<rparr>)"

text \<open>
  \<open>nslookup\<close>, given the reverse lookup as a function that returns \<open>None\<close> where
  \<open>socket.gethostbyaddr\<close> raises; it raises for an absent address as well.
\<close>

definition nslookup :: "(string \<Rightarrow> string option) \<Rightarrow> Node \<Rightarrow> Node" where
  "nslookup gethostbyaddr n =
     n\<lparr>name := (case ip_address n of None \<Rightarrow> None | Some a \<Rightarrow> gethostbyaddr a)\<rparr>"

definition response_rate :: "Node \<Rightarrow> error + string" where
  "response_rate n =
     (if successful_pings n = 0 then Inr ''0%''
      else (case int_truediv (successful_pings n) (successful_pings n + failed_pings n) of
              Inl e \<Rightarrow> Inl e
            | Inr q \<Rightarrow>
                (case py_round (float_mul q (Finite False 100)) 1 of
                   Inl e \<Rightarrow> Inl e
                 | Inr r \<Rightarrow> Inr (float_str r @ ''%''))))"

text \<open>
  What the rate is expected to be when there are successes: \<open>percent_tenths s f\<close> is
  \<open>round(s / (s + f) * 100, 1)\<close> counted in tenths of a percent, computed with the float
  operations above, and \<open>tenths_str d\<close> writes \<open>d\<close> tenths with one decimal digit.
\<close>

definition percent_tenths :: "int \<Rightarrow> int \<Rightarrow> int" where
  "percent_tenths s f =
     round_half_even
       (round_binary64 (round_binary64 (of_int s / of_int (s + f)) * 100) * 10)"

definition tenths_str :: "int \<Rightarrow> string" where
  "tenths_str d = str_int (d div 10) @ ''.'' @ str_int (d mod 10)"

section \<open>Topology discovery\<close>

subsection \<open>The two patterns\<close>

text \<open>
  Both patterns of \<open>create_attached_nodes\<close> are sequences of character classes,
  each repeated between a least and a greatest number of times, greedily. \<open>Rep p lo hi\<close>
  is the class \<open>p\<close> repeated \<open>lo\<close> to \<open>hi\<close> times (\<open>None\<close>: no upper bound).
  \<open>match_items\<close> is \<open>re.match\<close> on such a pattern: it anchors at the start of the
  text, lets each item take as many characters as it can, and gives characters back one
  at a time when the rest of the pattern fails. It returns the text taken by each item.

  Strings are lists of 8-bit characters, so the text is Python text of code points below
  256. There \<open>\s\<close> matches the characters of \<open>is_space\<close> and \<open>\d\<close> the ten ASCII
  digits.
\<close>

datatype item = Rep "char \<Rightarrow> bool" nat "nat option"

fun first_down :: "(nat \<Rightarrow> 'a option) \<Rightarrow> nat \<Rightarrow> nat \<Rightarrow> 'a option" where
  "first_down f lo k =
     (case f k of
        Some r \<Rightarrow> Some r
      | None \<Rightarrow> (if lo < k then first_down f lo (k - 1) else None))"

declare first_down.simps [simp del]

primrec match_items :: "item list \<Rightarrow> string \<Rightarrow> string list option" where
  "match_items [] = (\<lambda>s. Some [])"
| "match_items (it # its) = (\<lambda>s.
     (case it of Rep p lo hi \<Rightarrow>
       (let avail = length (takeWhile p s);
            k = (case hi of None \<Rightarrow> avail | Some h \<Rightarrow> min h avail)
        in if k < lo then None
           else first_down
                  (\<lambda>j. map_option ((#) (take j s)) (match_items its (drop j s))) lo k)))"

definition is_space :: "char \<Rightarrow> bool" where
  "is_space c = (c \<in> set [CHR 0x09, CHR 0x0A, CHR 0x0B, CHR 0x0C, CHR 0x0D, CHR 0x1C, CHR 0x1D,
                          CHR 0x1E, CHR 0x1F, CHR 0x20, CHR 0x85, CHR 0xA0])"

definition is_digit :: "char \<Rightarrow> bool" where
  "is_digit c = (c \<in> set ''0123456789'')"

text \<open>The class \<open>[0-9a-f\.]\<close>.\<close>

definition is_mac_char :: "char \<Rightarrow> bool" where
  "is_mac_char c = (c \<in> set ''0123456789abcdef.'')"

definition lit :: "char \<Rightarrow> item" where
  "lit c = Rep (\<lambda>x. x = c) 1 (Some 1)"

text \<open>A piece of text has the shape of an item: its characters and its length.\<close>

fun fits :: "item \<Rightarrow> string \<Rightarrow> bool" where
  "fits (Rep p lo hi) part =
     (list_all p part \<and> lo \<le> length part \<and>
      (case hi of None \<Rightarrow> True | Some h \<Rightarrow> length part \<le> h))"

text \<open>\<^verbatim>\<open>^\*\s(?P<vlan>\d+)\s+(?P<mac_address>[0-9a-f\.]{14})\<close>\<close>

definition mac_pattern :: "item list" where
  "mac_pattern =
     [lit CHR ''*'', Rep is_space 1 (Some 1), Rep is_digit 1 None, Rep is_space 1 None,
      Rep is_mac_char 14 (Some 14)]"

text \<open>The groups \<open>vlan\<close> and \<open>mac_address\<close> of a match of \<open>mac_pattern\<close>.\<close>

definition match_mac_line :: "string \<Rightarrow> (string \<times> string) option" where
  "match_mac_line line =
     (case match_items mac_pattern line of
        Some [star, sp, vl, gap, mac] \<Rightarrow> Some (vl, mac)
      | _ \<Rightarrow> None)"

text \<open>
  \<^verbatim>\<open>^(?P<ip_address>\d{1,3}\.\d{1,3}\.\d{1,3}\.\d{1,3})\s+(?P<age>\d{2}:\d{2}:\d{2})\s+\<close>
\<close>

definition arp_pattern :: "item list" where
  "arp_pattern =
     [Rep is_digit 1 (Some 3), lit CHR ''.'', Rep is_digit 1 (Some 3), lit CHR ''.'',
      Rep is_digit 1 (Some 3), lit CHR ''.'', Rep is_digit 1 (Some 3),
      Rep is_space 1 None,
      Rep is_digit 2 (Some 2), lit CHR '':'', Rep is_digit 2 (Some 2), lit CHR '':'',
      Rep is_digit 2 (Some 2),
      Rep is_space 1 None]"

text \<open>The group \<open>ip_address\<close> of a match of \<open>arp_pattern\<close>: its first seven items.\<close>

definition match_arp :: "string \<Rightarrow> string option" where
  "match_arp output = map_option (\<lambda>parts. concat (take 7 parts)) (match_items arp_pattern output)"

subsection \<open>create_attached_nodes\<close>

text \<open>\<open>s.split(c)\<close> for a one-character separator.\<close>

fun split_on :: "char \<Rightarrow> string \<Rightarrow> string list" where
  "split_on c [] = [[]]"
| "split_on c (x # xs) =
     (if x = c then [] # split_on c xs
      else (case split_on c xs of
              l # ls \<Rightarrow> (x # l) # ls
            | [] \<Rightarrow> [[x]]))"

text \<open>
  The device session is its \<open>send_command\<close>, a function from the command text to the
  output text. The progress lines that the program prints are left out.
\<close>

definition get_vlan_and_mac_addresses ::
  "(string \<Rightarrow> string) \<Rightarrow> string \<Rightarrow> (string \<times> string) list" where
  "get_vlan_and_mac_addresses send_command iface =
     (let output = send_command (''show mac address-table interface '' @ iface)
      in List.map_filter match_mac_line (split_on (CHR 0x0A) output))"

definition get_ip_address :: "(string \<Rightarrow> string) \<Rightarrow> string \<Rightarrow> string option" where
  "get_ip_address send_command mac =
     (let output = send_command (''show ip arp | include '' @ mac)
      in match_arp output)"

text \<open>The nodes of the device after \<open>create_attached_nodes(interface)\<close>.\<close>

definition create_attached_nodes ::
  "(string \<Rightarrow> string) \<Rightarrow> Node list \<Rightarrow> string \<Rightarrow> Node list" where
  "create_attached_nodes send_command nodes iface =
     nodes @ map (\<lambda>(vl, mac). Node_init mac (get_ip_address send_command mac) iface vl)
               (get_vlan_and_mac_addresses send_command iface)"

section \<open>Table\<close>

text \<open>A cell holds a string or \<open>None\<close>; a row is the list of its six cells.\<close>

type_synonym row = "string option list"

record Table =
  headers :: "string list"
  rows :: "row list"

definition Table_init :: Table where
  "Table_init =
     \<lparr>headers = [''Interface'', ''VLAN'', ''MAC Address'', ''IP Address'', ''Name'',
                 ''Response Rate''],
      rows = []\<rparr>"

text \<open>The row built from a node; evaluating \<open>response_rate\<close> can raise.\<close>

definition node_row :: "Node \<Rightarrow> error + row" where
  "node_row n =
     (case response_rate n of
        Inl e \<Rightarrow> Inl e
      | Inr rate \<Rightarrow>
          Inr [Some (interface n), Some (vlan n), Some (mac_address n), ip_address n,
               name n, Some rate])"

fun pre_populate_table :: "Table \<Rightarrow> Node list \<Rightarrow> error + Table" where
  "pre_populate_table t [] = Inr t"
| "pre_populate_table t (n # ns) =
     (case node_row n of
        Inl e \<Rightarrow> Inl e
      | Inr r \<Rightarrow> pre_populate_table (t\<lparr>rows := rows t @ [r]\<rparr>) ns)"

text \<open>
  \<open>self.rows[index] = [...]\<close>: the row is built first; a negative index counts from
  the end, and an index outside the list raises IndexError.
\<close>

definition update_row :: "Table \<Rightarrow> Node \<Rightarrow> int \<Rightarrow> error + Table" where
  "update_row t n index =
     (case node_row n of
        Inl e \<Rightarrow> Inl e
      | Inr r \<Rightarrow>
          (let len = int (length (rows t)); j = (if index < 0 then index + len else index)
           in if 0 \<le> j \<and> j < len then Inr (t\<lparr>rows := (rows t)[nat j := r]\<rparr>)
              else Inl IndexError))"

text \<open>
  Files are a map from names to contents, the contents being the characters the
  program writes (before any translation of line ends by the platform).
  \<open>open(name, "w")\<close> empties the file; \<open>f.writelines(s)\<close> on a string appends its
  characters one by one.
\<close>

type_synonym files = "string \<rightharpoonup> string"

definition open_w :: "string \<Rightarrow> files \<Rightarrow> files" where
  "open_w fname fs = fs(fname \<mapsto> [])"

definition writelines :: "string \<Rightarrow> string \<Rightarrow> files \<Rightarrow> files" where
  "writelines fname s fs =
     foldl (\<lambda>g c. g(fname \<mapsto> (case g fname of None \<Rightarrow> [c] | Some old \<Rightarrow> old @ [c]))) fs s"

text \<open>
  \<open>save\<close>, given \<open>tabulate\<close> of the tabulate library and \<open>str\<close> of a datetime as
  functions.
\<close>

definition save ::
  "(row list \<Rightarrow> string list \<Rightarrow> string) \<Rightarrow> ('dt \<Rightarrow> string) \<Rightarrow> Table \<Rightarrow> 'dt \<Rightarrow> 'dt \<Rightarrow>
   files \<Rightarrow> files" where
  "save tabulate str_dt t start end_time fs =
     writelines ''output_table.txt'' (tabulate (rows t) (headers t))
       (writelines ''output_table.txt'' [CHR 0x0A, CHR 0x0A]
         (writelines ''output_table.txt'' (str_dt start @ '' - '' @ str_dt end_time)
           (open_w ''output_table.txt'' fs)))"

section \<open>The monitor loop\<close>

text \<open>
  The world outside the program: the exit status \<open>os.system\<close> gives to the \<open>k\<close>-th
  shell command of the run, the time \<open>datetime.now()\<close> reads after \<open>k\<close> shell
  commands, and the two library functions \<open>save\<close> uses. The loop reads the clock once
  after each shell command, so any sequence of exit statuses and of clock readings is
  some \<open>env\<close>.
\<close>

record 'dt env =
  os_system :: "nat \<Rightarrow> string \<Rightarrow> int"
  now :: "nat \<Rightarrow> 'dt"
  str_dt :: "'dt \<Rightarrow> string"
  tabulate :: "row list \<Rightarrow> string list \<Rightarrow> string"

text \<open>
  The state of the loop: the device's nodes, the table, the files and the shell commands
  run so far.
\<close>

record monitor =
  nodes :: "Node list"
  table :: Table
  files :: files
  shell_log :: "string list"

text \<open>
  The body of \<open>for node in device.nodes\<close> for the node at position \<open>k\<close> of the list,
  with the loop's own counter \<open>index\<close>.
\<close>

definition loop_body ::
  "'dt env \<Rightarrow> 'dt \<Rightarrow> nat \<Rightarrow> int \<times> monitor \<Rightarrow> error + int \<times> monitor" where
  "loop_body env start k = (\<lambda>(index, st).
     (let node = nodes st ! k
      in if ip_address node = None then Inr (index + 1, st)
         else
           (let cmd = ping_command node;
                response = os_system env (length (shell_log st)) cmd;
                node' = ping response node;
                st1 = st\<lparr>nodes := (nodes st)[k := node'], shell_log := shell_log st @ [cmd]\<rparr>
            in case update_row (table st1) node' index of
                 Inl e \<Rightarrow> Inl e
               | Inr t \<Rightarrow>
                   Inr (index + 1,
                        st1\<lparr>table := t,
                            files := save (tabulate env) (str_dt env) t start
                                       (now env (length (shell_log st1))) (files st1)\<rparr>))))"

fun for_nodes ::
  "'dt env \<Rightarrow> 'dt \<Rightarrow> nat list \<Rightarrow> int \<times> monitor \<Rightarrow> error + int \<times> monitor" where
  "for_nodes env start [] acc = Inr acc"
| "for_nodes env start (k # ks) acc =
     (case loop_body env start k acc of
        Inl e \<Rightarrow> Inl e
      | Inr acc' \<Rightarrow> for_nodes env start ks acc')"

text \<open>One pass of \<open>while True\<close>: \<open>index = 0\<close>, then the \<open>for\<close> loop over the nodes.\<close>

definition monitor_cycle :: "'dt env \<Rightarrow> 'dt \<Rightarrow> monitor \<Rightarrow> error + monitor" where
  "monitor_cycle env start st =
     (case for_nodes env start [0..<length (nodes st)] (0, st) of
        Inl e \<Rightarrow> Inl e
      | Inr (index, st') \<Rightarrow> Inr st')"

text \<open>The first \<open>c\<close> passes of \<open>while True\<close>, which itself never ends.\<close>

fun monitor_loop :: "'dt env \<Rightarrow> 'dt \<Rightarrow> nat \<Rightarrow> monitor \<Rightarrow> error + monitor" where
  "monitor_loop env start 0 st = Inr st"
| "monitor_loop env start (Suc c) st =
     (case monitor_cycle env start st of
        Inl e \<Rightarrow> Inl e
      | Inr st' \<Rightarrow> monitor_loop env start c st')"

text \<open>
  The program from discovery to the loop, for nodes already discovered: name
  resolution for the nodes with an address, then the seeding of a new table.
\<close>

definition resolve_names :: "(string \<Rightarrow> string option) \<Rightarrow> Node list \<Rightarrow> Node list" where
  "resolve_names gethostbyaddr ns =
     map (\<lambda>n. if ip_address n \<noteq> None then nslookup gethostbyaddr n else n) ns"

definition seed_monitor :: "Node list \<Rightarrow> files \<Rightarrow> error + monitor" where
  "seed_monitor ns fs =
     (case pre_populate_table Table_init ns of
        Inl e \<Rightarrow> Inl e
      | Inr t \<Rightarrow> Inr \<lparr>nodes = ns, table = t, files = fs, shell_log = []\<rparr>)"

section \<open>Float arithmetic\<close>

text \<open>
  Digit counts and integer logarithms are what their names say, rounding to the nearest
  double moves a value by at most half a unit in the last place, and a double that was
  rounded to at most 1000 tenths prints as those tenths with one decimal digit.
\<close>

lemma pow_int_powi: "b \<noteq> 0 \<Longrightarrow> pow_int b k = of_int b powi k"
  by (simp add: pow_int_def power_int_def inverse_eq_divide power_one_over)

lemma ilen_pos: "0 < x \<Longrightarrow> 1 < b \<Longrightarrow> 1 \<le> ilen b x"
proof (induction b x rule: ilen.induct)
  case (1 b x)
  show ?case
  proof (cases "0 < x div b")
    case True
    from "1.IH" [OF _ True "1.prems"(2)] "1.prems" show ?thesis
      by (simp add: ilen.simps [of b x])
  next
    case False
    then have "ilen b (x div b) = 0" by (simp add: ilen.simps [of b "x div b"])
    with "1.prems" show ?thesis by (simp add: ilen.simps [of b x])
  qed
qed

lemma ilen_bounds:
  "0 < x \<Longrightarrow> 1 < b \<Longrightarrow> b ^ nat (ilen b x - 1) \<le> x \<and> x < b ^ nat (ilen b x)"
proof (induction b x rule: ilen.induct)
  case (1 b x)
  have eq: "ilen b x = ilen b (x div b) + 1" using "1.prems" by (simp add: ilen.simps [of b x])
  show ?case
  proof (cases "0 < x div b")
    case False
    then have z: "ilen b (x div b) = 0" by (simp add: ilen.simps [of b "x div b"])
    from False "1.prems" have "x < b"
      by (simp add: nonneg1_imp_zdiv_pos_iff)
    moreover have "ilen b x = 1" using eq z by simp
    ultimately show ?thesis using "1.prems" by simp
  next
    case True
    define l where "l = ilen b (x div b)"
    from ilen_pos [OF True "1.prems"(2)] have l1: "1 \<le> l" by (simp add: l_def)
    from "1.IH" [OF _ True "1.prems"(2)] "1.prems"
    have ih: "b ^ nat (l - 1) \<le> x div b" "x div b < b ^ nat l" by (simp_all add: l_def)
    have bpos: "0 < b" using "1.prems" by simp
    have nat_l: "nat l = Suc (nat (l - 1))" using l1 by simp
    have md: "0 \<le> x mod b" "x mod b < b" "b * (x div b) + x mod b = x"
      using bpos by simp_all
    have "b ^ nat l = b * b ^ nat (l - 1)" by (simp add: nat_l)
    also have "\<dots> \<le> b * (x div b)" using ih(1) bpos by (simp add: mult_left_mono)
    also have "\<dots> \<le> x" using md by linarith
    finally have lower: "b ^ nat l \<le> x" .
    have "x < b * (x div b) + b" using md by linarith
    also have "\<dots> = b * (x div b + 1)" by (simp add: distrib_left)
    also have "\<dots> \<le> b * b ^ nat l" using ih(2) bpos by (simp add: mult_left_mono)
    also have "\<dots> = b ^ nat (l + 1)" using l1 by (simp add: nat_add_distrib)
    finally have upper: "x < b ^ nat (l + 1)" .
    from lower upper show ?thesis by (simp add: eq l_def)
  qed
qed


lemma ilen_powi:
  assumes "0 < x" "1 < b"
  shows "(of_int b :: rat) powi (ilen b x - 1) \<le> of_int x"
    and "(of_int x :: rat) < of_int b powi (ilen b x)"
proof -
  from ilen_pos [OF assms] have l1: "1 \<le> ilen b x" .
  from ilen_bounds [OF assms] have lo: "b ^ nat (ilen b x - 1) \<le> x" and hi: "x < b ^ nat (ilen b x)"
    by simp_all
  have "(of_int b :: rat) powi (ilen b x - 1) = of_int (b ^ nat (ilen b x - 1))"
    using l1 by (simp add: power_int_def)
  also have "\<dots> \<le> of_int x" using lo by (simp only: of_int_le_iff)
  finally show "(of_int b :: rat) powi (ilen b x - 1) \<le> of_int x" .
  have "(of_int x :: rat) < of_int (b ^ nat (ilen b x))" using hi by (simp only: of_int_less_iff)
  also have "\<dots> = of_int b powi (ilen b x)" using l1 by (simp add: power_int_def)
  finally show "(of_int x :: rat) < of_int b powi (ilen b x)" .
qed

lemma ilog_bounds:
  assumes y: "0 < y" and b: "1 < b"
  shows "pow_int b (ilog b y) \<le> y \<and> y < pow_int b (ilog b y + 1)"
proof -
  obtain p q where pq: "quotient_of y = (p, q)" by (cases "quotient_of y")
  from quotient_of_denom_pos [OF pq] have q: "0 < q" .
  from quotient_of_div [OF pq] have yq: "y = of_int p / of_int q" .
  with y q have p: "0 < p" by (simp add: zero_less_divide_iff)
  define B :: rat where "B = of_int b"
  have B1: "1 < B" using b by (simp add: B_def)
  have B0: "B \<noteq> 0" using B1 by simp
  have pw: "\<And>k. pow_int b k = B powi k" using b by (simp add: pow_int_powi B_def)
  define k where "k = ilen b p - ilen b q"
  have Q: "(0::rat) < of_int q" using q by simp
  have plo: "B powi (ilen b p - 1) \<le> of_int p" and phi: "of_int p < B powi (ilen b p)"
    using ilen_powi [OF p b] by (simp_all add: B_def)
  have qlo: "B powi (ilen b q - 1) \<le> of_int q" and qhi: "of_int q < B powi (ilen b q)"
    using ilen_powi [OF q b] by (simp_all add: B_def)
  have "y * of_int q = of_int p" using Q by (simp add: yq)
  have up: "y < B powi (k + 1)"
  proof -
    have "y * B powi (ilen b q - 1) \<le> y * of_int q"
      using qlo y by (simp add: mult_left_mono)
    also have "\<dots> = of_int p" by fact
    also have "\<dots> < B powi (ilen b p)" by fact
    also have "\<dots> = B powi (k + 1) * B powi (ilen b q - 1)"
      using B0 by (simp add: k_def flip: power_int_add)
    finally have "y * B powi (ilen b q - 1) < B powi (k + 1) * B powi (ilen b q - 1)" .
    moreover have "0 < B powi (ilen b q - 1)" using B1 by simp
    ultimately show ?thesis by (simp only: mult_less_cancel_right_pos)
  qed
  have low: "B powi (k - 1) < y"
  proof -
    have "B powi (k - 1) * B powi (ilen b q) = B powi (ilen b p - 1)"
      using B0 by (simp add: k_def flip: power_int_add)
    also have "\<dots> \<le> of_int p" by fact
    also have "\<dots> = y * of_int q" using \<open>y * of_int q = of_int p\<close> by simp
    also have "\<dots> < y * B powi (ilen b q)" using qhi y by (simp add: mult_strict_left_mono)
    finally have "B powi (k - 1) * B powi (ilen b q) < y * B powi (ilen b q)" .
    moreover have "0 < B powi (ilen b q)" using B1 by simp
    ultimately show ?thesis by (simp only: mult_less_cancel_right_pos)
  qed
  have il: "ilog b y = (if B powi k \<le> y then k else k - 1)"
    by (simp add: ilog_def pq Let_def k_def pw)
  show ?thesis
  proof (cases "B powi k \<le> y")
    case True
    with up show ?thesis by (simp add: il pw)
  next
    case False
    with low show ?thesis by (simp add: il pw)
  qed
qed

lemma ilog_unique:
  assumes "0 < y" "1 < b" "pow_int b k \<le> y" "y < pow_int b (k + 1)"
  shows "ilog b y = k"
proof -
  define B :: rat where "B = of_int b"
  have B1: "1 < B" using assms(2) by (simp add: B_def)
  have pw: "\<And>k. pow_int b k = B powi k" using assms(2) by (simp add: pow_int_powi B_def)
  from ilog_bounds [OF assms(1,2)] have
    i: "B powi (ilog b y) \<le> y" "y < B powi (ilog b y + 1)" by (simp_all add: pw)
  from assms(3,4) have k: "B powi k \<le> y" "y < B powi (k + 1)" by (simp_all add: pw)
  have "\<not> k + 1 \<le> ilog b y"
  proof
    assume "k + 1 \<le> ilog b y"
    then have "B powi (k + 1) \<le> B powi (ilog b y)"
      using B1 by (intro power_int_increasing) simp_all
    with i(1) k(2) show False by simp
  qed
  moreover have "\<not> ilog b y + 1 \<le> k"
  proof
    assume "ilog b y + 1 \<le> k"
    then have "B powi (ilog b y + 1) \<le> B powi k"
      using B1 by (intro power_int_increasing) simp_all
    with i(2) k(1) show False by simp
  qed
  ultimately show ?thesis by simp
qed

lemma ilog_less:
  assumes "0 < y" "1 < b" "y < pow_int b (k + 1)"
  shows "ilog b y \<le> k"
proof (rule ccontr)
  assume "\<not> ilog b y \<le> k"
  then have le: "k + 1 \<le> ilog b y" by simp
  define B :: rat where "B = of_int b"
  have B1: "1 < B" using assms(2) by (simp add: B_def)
  have pw: "\<And>k. pow_int b k = B powi k" using assms(2) by (simp add: pow_int_powi B_def)
  from le have "B powi (k + 1) \<le> B powi (ilog b y)"
    using B1 by (intro power_int_increasing) simp_all
  moreover from ilog_bounds [OF assms(1,2)] have "B powi (ilog b y) \<le> y" by (simp add: pw)
  ultimately show False using assms(3) by (simp add: pw)
qed

lemma round_half_even_error: "\<bar>of_int (round_half_even z) - z\<bar> \<le> 1 / 2"
proof -
  have "of_int \<lfloor>z\<rfloor> \<le> z" "z < of_int \<lfloor>z\<rfloor> + 1" by linarith+
  then show ?thesis
    by (auto simp: round_half_even_def Let_def)
qed

lemma round_half_even_int [simp]: "round_half_even (of_int n) = n"
  by (simp add: round_half_even_def)

lemma round_half_even_nonneg: "0 \<le> z \<Longrightarrow> 0 \<le> round_half_even z"
  by (auto simp: round_half_even_def Let_def)

lemma round_half_even_le:
  assumes "z < of_int n + 1 / 2"
  shows "round_half_even z \<le> n"
proof -
  have "of_int (round_half_even z) - z \<le> 1 / 2"
    using round_half_even_error [of z] by linarith
  have "(of_int (round_half_even z) :: rat) < of_int n + 1"
    using round_half_even_error [of z] assms by linarith
  then have "(of_int (round_half_even z) :: rat) < of_int (n + 1)" by simp
  then have "round_half_even z < n + 1" by (simp only: of_int_less_iff)
  then show ?thesis by simp
qed


lemma round_binary64_nonneg: "0 \<le> round_binary64 y"
proof (cases "y \<le> 0")
  case True
  then show ?thesis by (simp add: round_binary64_def)
next
  case False
  define e where "e = max (ilog 2 y - 52) (- 1074)"
  have P: "0 < pow_int 2 e" by (simp add: pow_int_powi)
  with False have "0 \<le> y / pow_int 2 e" by simp
  from round_half_even_nonneg [OF this] P False show ?thesis
    by (simp add: round_binary64_def Let_def e_def)
qed

lemma round_binary64_error:
  assumes y: "0 < y" and K: "y < pow_int 2 (K + 1)"
  shows "\<bar>round_binary64 y - y\<bar> \<le> pow_int 2 (max (K - 52) (- 1074)) / 2"
proof -
  define e where "e = max (ilog 2 y - 52) (- 1074)"
  define P where "P = pow_int 2 e"
  have Pp: "P = 2 powi e" by (simp add: P_def pow_int_powi)
  have P0: "0 < P" by (simp add: Pp)
  from ilog_less [OF y _ K] have "ilog 2 y \<le> K" by simp
  then have "e \<le> max (K - 52) (- 1074)" by (simp add: e_def)
  then have PE: "P \<le> pow_int 2 (max (K - 52) (- 1074))"
    unfolding Pp by (simp add: pow_int_powi power_int_increasing)
  have fl: "round_binary64 y = of_int (round_half_even (y / P)) * P"
    using y by (simp add: round_binary64_def Let_def e_def P_def)
  have "round_binary64 y - y = (of_int (round_half_even (y / P)) - y / P) * P"
    using P0 by (simp add: fl algebra_simps)
  then have "\<bar>round_binary64 y - y\<bar> = \<bar>of_int (round_half_even (y / P)) - y / P\<bar> * P"
    using P0 by (simp add: abs_mult)
  also have "\<dots> \<le> 1 / 2 * P"
    using round_half_even_error [of "y / P"] P0 by (intro mult_right_mono) simp_all
  also have "\<dots> \<le> pow_int 2 (max (K - 52) (- 1074)) / 2" using PE by simp
  finally show ?thesis .
qed

lemma round_binary64_error_small:
  assumes "0 \<le> y" "y < 256"
  shows "\<bar>round_binary64 y - y\<bar> \<le> 1 / 2 ^ 46"
proof (cases "y = 0")
  case True
  then show ?thesis by (simp add: round_binary64_def)
next
  case False
  with assms have y: "0 < y" by simp
  have "y < pow_int 2 (7 + 1)" using assms by (simp add: pow_int_def)
  from round_binary64_error [OF y this] show ?thesis by (simp add: pow_int_def)
qed

lemma round_binary64_error_unit:
  assumes "0 \<le> y" "y < 2"
  shows "\<bar>round_binary64 y - y\<bar> \<le> 1 / 2 ^ 53"
proof (cases "y = 0")
  case True
  then show ?thesis by (simp add: round_binary64_def)
next
  case False
  with assms have y: "0 < y" by simp
  have "y < pow_int 2 (0 + 1)" using assms by (simp add: pow_int_def)
  from round_binary64_error [OF y this] show ?thesis by (simp add: pow_int_def)
qed


lemma percent_steps:
  assumes s: "0 < s" and f: "0 \<le> f"
  defines "q0 \<equiv> (of_int s / of_int (s + f) :: rat)"
  defines "m \<equiv> round_binary64 q0"
  defines "x \<equiv> round_binary64 (m * 100)"
  shows "0 < q0" "q0 \<le> 1" "0 \<le> m" "m \<le> 1 + 1 / 2 ^ 53" "\<bar>m - q0\<bar> \<le> 1 / 2 ^ 53"
    "0 \<le> x" "\<bar>x - m * 100\<bar> \<le> 1 / 2 ^ 46" "x \<le> 100 + 1 / 2 ^ 45"
    "0 \<le> percent_tenths s f" "percent_tenths s f \<le> 1000"
    "\<bar>of_int (percent_tenths s f) / 10 - 100 * q0\<bar> \<le> 1 / 20 + 1 / 2 ^ 45"
proof -
  have sf: "(0::rat) < of_int (s + f)" using s f by simp
  show q0: "0 < q0" using s sf by (simp add: q0_def)
  have "(of_int s :: rat) \<le> of_int (s + f)" using f by simp
  then show q1: "q0 \<le> 1" using sf by (simp add: q0_def)
  show m0: "0 \<le> m" by (simp add: m_def round_binary64_nonneg)
  have "q0 < 2" using q1 by simp
  with q0 have "\<bar>round_binary64 q0 - q0\<bar> \<le> 1 / 2 ^ 53"
    by (intro round_binary64_error_unit) simp_all
  then show me: "\<bar>m - q0\<bar> \<le> 1 / 2 ^ 53" by (simp add: m_def)
  with q1 show m1: "m \<le> 1 + 1 / 2 ^ 53" by linarith
  show x0: "0 \<le> x" by (simp add: x_def round_binary64_nonneg)
  have "m * 100 \<le> (1 + 1 / 2 ^ 53) * 100" using m1 by simp
  then have "m * 100 < 256" by simp
  with m0 have "\<bar>round_binary64 (m * 100) - m * 100\<bar> \<le> 1 / 2 ^ 46"
    by (intro round_binary64_error_small) simp_all
  then show xe: "\<bar>x - m * 100\<bar> \<le> 1 / 2 ^ 46" by (simp add: x_def)
  have m100: "m * 100 \<le> 100 + 100 / 2 ^ 53" using m1 by simp
  have "(100::rat) / 2 ^ 53 + 1 / 2 ^ 46 \<le> 1 / 2 ^ 45" by simp
  with xe m100 show x1: "x \<le> 100 + 1 / 2 ^ 45" by linarith
  have pt: "percent_tenths s f = round_half_even (x * 10)"
    by (simp add: percent_tenths_def x_def m_def q0_def)
  show "0 \<le> percent_tenths s f"
    unfolding pt using x0 by (intro round_half_even_nonneg) simp
  have "x * 10 \<le> 1000 + 10 / 2 ^ 45" using x1 by simp
  then have "x * 10 < of_int 1000 + 1 / 2" by simp
  then show "percent_tenths s f \<le> 1000"
    unfolding pt by (rule round_half_even_le)
  have d: "\<bar>of_int (percent_tenths s f) - x * 10\<bar> \<le> 1 / 2"
    unfolding pt by (rule round_half_even_error)
  have "\<bar>m * 100 - 100 * q0\<bar> = \<bar>100 * (m - q0)\<bar>" by (simp add: algebra_simps)
  also have "\<dots> = \<bar>100\<bar> * \<bar>m - q0\<bar>" by (rule abs_mult)
  also have "\<dots> = 100 * \<bar>m - q0\<bar>" by simp
  finally have "\<bar>m * 100 - 100 * q0\<bar> = 100 * \<bar>m - q0\<bar>" .
  with me have "\<bar>m * 100 - 100 * q0\<bar> \<le> 100 / 2 ^ 53" by simp
  with xe have "\<bar>x - 100 * q0\<bar> \<le> 100 / 2 ^ 53 + 1 / 2 ^ 46" by linarith
  then have "\<bar>x - 100 * q0\<bar> \<le> 1 / 2 ^ 45" by simp
  with d show "\<bar>of_int (percent_tenths s f) / 10 - 100 * q0\<bar> \<le> 1 / 20 + 1 / 2 ^ 45"
    by linarith
qed

lemma small_no_overflow: "y \<le> 257 \<Longrightarrow> \<not> float_overflow y"
proof -
  assume "y \<le> 257"
  moreover have "(257::rat) < 2 ^ 1024" by simp
  ultimately show ?thesis unfolding float_overflow_def by linarith
qed

lemma tenths_readback_finite:
  assumes "0 \<le> d" "d \<le> 1000"
  shows "\<not> float_overflow (round_binary64 (of_int d / 10))"
proof -
  have "(of_int d :: rat) \<le> of_int 1000" using assms by (simp only: of_int_le_iff)
  then have "(of_int d :: rat) \<le> 1000" by simp
  then have "(of_int d / 10 :: rat) < 256" by simp
  moreover have "(0::rat) \<le> of_int d / 10" using assms by simp
  ultimately have "\<bar>round_binary64 (of_int d / 10) - of_int d / 10\<bar> \<le> 1 / 2 ^ 46"
    by (rule round_binary64_error_small [rotated])
  moreover have "(1::rat) / 2 ^ 46 \<le> 1" by simp
  ultimately have "round_binary64 (of_int d / 10) \<le> 257"
    using \<open>(of_int d / 10 :: rat) < 256\<close> by linarith
  then show ?thesis by (rule small_no_overflow)
qed

lemma response_rate_value:
  assumes s: "0 < successful_pings n" and f: "0 \<le> failed_pings n"
  shows "response_rate n =
     Inr (float_repr_mag
            (round_binary64
               (of_int (percent_tenths (successful_pings n) (failed_pings n)) / 10)) @ ''%'')"
proof -
  define q0 :: rat where "q0 = of_int (successful_pings n) / of_int (successful_pings n + failed_pings n)"
  define m where "m = round_binary64 q0"
  define x where "x = round_binary64 (m * 100)"
  define d where "d = percent_tenths (successful_pings n) (failed_pings n)"
  note st = percent_steps [OF s f, folded q0_def m_def x_def d_def]
  have sf: "0 < successful_pings n + failed_pings n" using s f by simp
  have small: "(1::rat) / 2 ^ 53 \<le> 1" "(1::rat) / 2 ^ 45 \<le> 1" by simp_all
  have "m \<le> 257" using st(4) small by linarith
  then have "\<not> float_overflow m" by (rule small_no_overflow)
  then have div: "int_truediv (successful_pings n) (successful_pings n + failed_pings n) =
      Inr (Finite False m)"
    using s f sf by (simp add: int_truediv_def Let_def m_def q0_def)
  have "x \<le> 257" using st(8) small unfolding x_def by linarith
  then have "\<not> float_overflow x" by (rule small_no_overflow)
  then have mul: "float_mul (Finite False m) (Finite False 100) = Finite False x"
    by (simp add: Let_def x_def)
  have dx: "round_half_even (x * 10) = d"
    by (simp add: d_def percent_tenths_def x_def m_def q0_def)
  have "\<not> float_overflow (round_binary64 (of_int d / 10))"
    using st(9,10) by (rule tenths_readback_finite)
  then have rnd: "py_round (Finite False x) 1 = Inr (Finite False (round_binary64 (of_int d / 10)))"
    by (simp add: py_round_def Let_def dx)
  have nz: "successful_pings n \<noteq> 0" using s by simp
  show ?thesis
    unfolding response_rate_def
    by (simp only: nz if_False div mul rnd [unfolded d_def] sum.case float_str.simps append_Nil)
qed

lemma tenths_close:
  assumes "0 \<le> d" "d \<le> 1000"
  shows "\<bar>round_binary64 (of_int d / 10) - of_int d / 10\<bar> \<le> 1 / 2 ^ 46"
proof -
  have "(of_int d :: rat) \<le> of_int 1000" using assms by (simp only: of_int_le_iff)
  then have "(of_int d / 10 :: rat) < 256" by simp
  moreover have "(0::rat) \<le> of_int d / 10" using assms by simp
  ultimately show ?thesis by (rule round_binary64_error_small [rotated])
qed

lemma pow_int_10_succ: "- 1 \<le> e \<Longrightarrow> pow_int 10 e * 10 = of_int (10 ^ nat (e + 1))"
proof -
  assume e: "- 1 \<le> e"
  have "pow_int 10 e * 10 = (10::rat) powi e * 10 powi 1" by (simp add: pow_int_powi)
  also have "\<dots> = 10 powi (e + 1)" by (simp add: power_int_add)
  also have "\<dots> = 10 ^ nat (e + 1)" using e by (simp add: power_int_def)
  finally show ?thesis by simp
qed

lemma reads_back_tenths:
  assumes d: "0 \<le> d" "d \<le> 1000" and c: "0 \<le> c" and e: "- 1 \<le> e"
    and small: "of_int c * pow_int 10 e < 256"
  shows "reads_back (round_binary64 (of_int d / 10)) c e \<longleftrightarrow> c * 10 ^ nat (e + 1) = d"
proof
  assume "c * 10 ^ nat (e + 1) = d"
  then have "(of_int d :: rat) = of_int (c * 10 ^ nat (e + 1))" by (simp only:)
  also have "\<dots> = of_int c * of_int (10 ^ nat (e + 1))" by (simp only: of_int_mult)
  also have "\<dots> = of_int c * (pow_int 10 e * 10)" by (simp only: pow_int_10_succ [OF e])
  finally have k: "(of_int d :: rat) = of_int c * (pow_int 10 e * 10)" .
  have "of_int c * pow_int 10 e = (of_int d / 10 :: rat)" unfolding k by simp
  then show "reads_back (round_binary64 (of_int d / 10)) c e"
    unfolding reads_back_def by (simp only:)
next
  assume rb: "reads_back (round_binary64 (of_int d / 10)) c e"
  define y where "y = of_int c * pow_int 10 e"
  have P: "0 < pow_int 10 e" by (simp add: pow_int_powi)
  have y0: "0 \<le> y" using c P by (simp add: y_def)
  from round_binary64_error_small [OF y0] small
  have ey: "\<bar>round_binary64 y - y\<bar> \<le> 1 / 2 ^ 46" by (simp add: y_def)
  from rb have eq: "round_binary64 y = round_binary64 (of_int d / 10)"
    by (simp add: reads_back_def y_def)
  from tenths_close [OF d] ey eq have "\<bar>y - of_int d / 10\<bar> \<le> 2 / 2 ^ 46" by linarith
  then have "\<bar>y * 10 - of_int d\<bar> \<le> 20 / 2 ^ 46" by linarith
  moreover have "y * 10 = of_int (c * 10 ^ nat (e + 1))"
    using pow_int_10_succ [OF e] by (simp add: y_def mult.assoc)
  ultimately have "\<bar>(of_int (c * 10 ^ nat (e + 1) - d) :: rat)\<bar> \<le> 20 / 2 ^ 46" by simp
  moreover have "(20::rat) / 2 ^ 46 < 1" by simp
  ultimately have "\<bar>(of_int (c * 10 ^ nat (e + 1) - d) :: rat)\<bar> < of_int 1" by simp
  then have "\<bar>c * 10 ^ nat (e + 1) - d\<bar> < 1"
    by (simp only: of_int_abs [symmetric] of_int_less_iff)
  then show "c * 10 ^ nat (e + 1) = d" by simp
qed


lemma exact_powers:
  "1 / 10 \<le> round_binary64 (1 / 10)" "round_binary64 1 = 1" "round_binary64 10 = 10"
  "round_binary64 100 = 100"
  by code_simp+

lemma ilog10_tenths:
  assumes d: "1 \<le> d" "d \<le> 1000" and k: "- 1 \<le> k"
    and lo: "10 ^ nat (k + 1) \<le> d" and hi: "d < 10 ^ nat (k + 2)"
  shows "ilog 10 (round_binary64 (of_int d / 10)) = k"
proof -
  define r where "r = round_binary64 (of_int d / 10)"
  have close: "\<bar>r - of_int d / 10\<bar> \<le> 1 / 2 ^ 46"
    unfolding r_def using d by (intro tenths_close) simp_all
  have tiny: "(1::rat) / 2 ^ 46 < 1 / 10" by simp
  have "(of_int 1 :: rat) \<le> of_int d" using d(1) by (simp only: of_int_le_iff)
  then have v: "(1::rat) / 10 \<le> of_int d / 10" by simp
  with close tiny have r0: "0 < r" by linarith
  have pk: "pow_int 10 k * 10 = of_int (10 ^ nat (k + 1))" using k by (rule pow_int_10_succ)
  have pk1: "pow_int 10 (k + 1) * 10 = of_int (10 ^ nat (k + 2))"
    using pow_int_10_succ [of "k + 1"] k by (simp add: add.commute add.left_commute)
  have upper: "r < pow_int 10 (k + 1)"
  proof -
    from hi have "d + 1 \<le> 10 ^ nat (k + 2)" by simp
    then have "(of_int (d + 1) :: rat) \<le> of_int (10 ^ nat (k + 2))" by (simp only: of_int_le_iff)
    then have "(of_int d :: rat) + 1 \<le> pow_int 10 (k + 1) * 10" by (simp add: pk1)
    with close tiny show ?thesis by linarith
  qed
  have lower: "pow_int 10 k \<le> r"
  proof (cases "d = 10 ^ nat (k + 1)")
    case False
    with lo have "10 ^ nat (k + 1) + 1 \<le> d" by simp
    then have "(of_int (10 ^ nat (k + 1) + 1) :: rat) \<le> of_int d" by (simp only: of_int_le_iff)
    then have "pow_int 10 k * 10 + 1 \<le> (of_int d :: rat)" by (simp add: pk)
    with close tiny show ?thesis by linarith
  next
    case True
    have "k \<le> 2"
    proof (rule ccontr)
      assume "\<not> k \<le> 2"
      then have "3 \<le> k" by simp
      then have "(10::int) ^ 4 \<le> 10 ^ nat (k + 1)" by (intro power_increasing) simp_all
      with True d(2) show False by simp
    qed
    with k have "k = - 1 \<or> k = 0 \<or> k = 1 \<or> k = 2" by auto
    then show ?thesis
      using exact_powers unfolding r_def True by (auto simp: pow_int_def)
  qed
  from ilog_unique [OF r0 _ lower upper] show ?thesis by (simp add: r_def)
qed

lemma shortest_step:
  assumes d: "1 \<le> d" "d \<le> 1000"
    and r: "r = round_binary64 (of_int d / 10)"
    and e: "e = ilog 10 r + 1 - n" "- 1 \<le> e" "1 \<le> n" "e \<le> 2"
  shows "shortest_decimal r (n # ns) =
     (if 10 ^ nat (e + 1) dvd d then (d div 10 ^ nat (e + 1), e) else shortest_decimal r ns)"
proof -
  define P where "P = pow_int 10 e"
  define T :: int where "T = 10 ^ nat (e + 1)"
  define lo where "lo = \<lfloor>r / P\<rfloor>"
  have Pw: "P = 10 powi e" by (simp add: P_def pow_int_powi)
  have P0: "0 < P" by (simp add: Pw)
  have PT: "P * 10 = of_int T" unfolding P_def T_def using e(2) by (rule pow_int_10_succ)
  have T0: "0 < T" by (simp add: T_def)
  have "P \<le> 10 powi 2" unfolding Pw using e(4) by (intro power_int_increasing) simp_all
  then have P100: "P \<le> 100" by simp
  have "(10::rat) powi (- 1) \<le> P" unfolding Pw using e(2) by (intro power_int_increasing) simp_all
  then have P10: "1 / 10 \<le> P" by simp
  have close: "\<bar>r - of_int d / 10\<bar> \<le> 1 / 2 ^ 46"
    unfolding r using d by (intro tenths_close) simp_all
  have tiny: "(1::rat) / 2 ^ 46 < 1 / 100" by simp
  have "(of_int 1 :: rat) \<le> of_int d" "(of_int d :: rat) \<le> of_int 1000"
    using d by (simp_all only: of_int_le_iff)
  then have v: "(1::rat) / 10 \<le> of_int d / 10" "(of_int d / 10 :: rat) \<le> 100" by simp_all
  with close tiny have r0: "0 < r" and r101: "r < 101" by linarith+
  from ilog_bounds [OF r0, of 10] have "pow_int 10 (ilog 10 r) \<le> r" by simp
  moreover have "P \<le> pow_int 10 (ilog 10 r)"
    unfolding P_def using e(1,3) by (simp add: pow_int_powi power_int_increasing)
  ultimately have Pr: "P \<le> r" by simp
  then have "1 \<le> r / P" using P0 by (simp add: le_divide_eq)
  then have lo1: "1 \<le> lo" unfolding lo_def by (simp add: le_floor_iff)
  have lo_le: "of_int lo \<le> r / P" and lo_gt: "r / P < of_int lo + 1"
    unfolding lo_def by linarith+
  from lo_le P0 have loP: "of_int lo * P \<le> r" by (simp add: le_divide_eq)
  from lo_gt P0 have hiP: "r < (of_int lo + 1) * P" by (simp add: divide_less_eq)
  have sm_lo: "of_int lo * pow_int 10 e < 256" using loP r101 by (simp add: P_def)
  have "(of_int lo + 1) * P = of_int lo * P + P" by (simp add: algebra_simps)
  with loP r101 P100 have "of_int (lo + 1) * pow_int 10 e < 256" by (simp add: P_def)
  then have sm_hi: "of_int (lo + 1) * pow_int 10 e < 256" .
  have d0: "0 \<le> d" using d(1) by simp
  have rb_lo: "reads_back r lo e \<longleftrightarrow> lo * T = d"
    unfolding r T_def using lo1 by (intro reads_back_tenths [OF d0 d(2) _ e(2) sm_lo]) simp
  have rb_hi: "reads_back r (lo + 1) e \<longleftrightarrow> (lo + 1) * T = d"
    unfolding r T_def using lo1 by (intro reads_back_tenths [OF d0 d(2) _ e(2) sm_hi]) simp
  have sd: "shortest_decimal r (n # ns) =
     (if reads_back r lo e \<and> reads_back r (lo + 1) e then (round_half_even (r / P), e)
      else if reads_back r lo e then (lo, e)
      else if reads_back r (lo + 1) e then (lo + 1, e)
      else shortest_decimal r ns)"
    by (simp add: Let_def e(1) P_def lo_def)
  show ?thesis
  proof (cases "T dvd d")
    case False
    then have "lo * T \<noteq> d" "(lo + 1) * T \<noteq> d" by auto
    with False show ?thesis by (simp add: sd rb_lo rb_hi T_def del: shortest_decimal.simps)
  next
    case True
    define cv where "cv = d div T"
    have cv: "cv * T = d" using True by (simp add: cv_def)
    have "(of_int d :: rat) = of_int cv * (P * 10)" by (simp add: PT flip: cv)
    then have "of_int d / 10 = of_int cv * P" by simp
    with close have "\<bar>r - of_int cv * P\<bar> \<le> 1 / 2 ^ 46" by simp
    moreover have eqn: "(r / P - of_int cv) * P = r - of_int cv * P"
      using P0 by (simp add: left_diff_distrib)
    moreover have "\<bar>r / P - of_int cv\<bar> * P = \<bar>(r / P - of_int cv) * P\<bar>"
      using P0 by (simp add: abs_mult)
    ultimately have A: "\<bar>r / P - of_int cv\<bar> * P \<le> 1 / 2 ^ 46"
      by (simp only:)
    have B: "\<bar>r / P - of_int cv\<bar> * (1 / 10) \<le> \<bar>r / P - of_int cv\<bar> * P"
      using P10 by (intro mult_left_mono) simp_all
    from order_trans [OF B A] have "\<bar>r / P - of_int cv\<bar> \<le> 10 / 2 ^ 46" by simp
    also have "(10::rat) / 2 ^ 46 < 1" by simp
    finally have near: "\<bar>r / P - of_int cv\<bar> < 1" .
    with lo_le lo_gt have "(of_int lo :: rat) < of_int cv + 1" "(of_int cv :: rat) < of_int lo + 2"
      by linarith+
    then have "(of_int lo :: rat) < of_int (cv + 1)" "(of_int cv :: rat) < of_int (lo + 2)"
      by simp_all
    then have "lo < cv + 1" "cv < lo + 2" by (simp_all only: of_int_less_iff)
    then have "cv = lo \<or> cv = lo + 1" by auto
    then show ?thesis
    proof
      assume c: "cv = lo"
      then have "lo * T = d" using cv by simp
      moreover then have "(lo + 1) * T \<noteq> d" using T0 by (simp add: algebra_simps)
      ultimately show ?thesis using True c by (simp add: sd rb_lo rb_hi T_def cv_def del: shortest_decimal.simps)
    next
      assume c: "cv = lo + 1"
      then have h: "(lo + 1) * T = d" using cv by simp
      then have "lo * T \<noteq> d" using T0 by (simp add: algebra_simps)
      with h show ?thesis using True c by (simp add: sd rb_lo rb_hi T_def cv_def del: shortest_decimal.simps)
    qed
  qed
qed

lemma str_int_1: "0 \<le> c \<Longrightarrow> c < 10 \<Longrightarrow> str_int c = [char_of (48 + c)]"
  by (simp add: str_int.simps [of c])

lemma str_int_2:
  "10 \<le> c \<Longrightarrow> c < 100 \<Longrightarrow> str_int c = [char_of (48 + c div 10), char_of (48 + c mod 10)]"
  by (simp add: str_int.simps [of c] str_int_1)

lemma str_int_3:
  "100 \<le> c \<Longrightarrow> c < 1000 \<Longrightarrow>
     str_int c = [char_of (48 + c div 100), char_of (48 + c div 10 mod 10), char_of (48 + c mod 10)]"
  by (simp add: str_int.simps [of c] str_int_2 zdiv_zmult2_eq)

lemma strip_zeros_id: "c mod 10 \<noteq> 0 \<Longrightarrow> strip_zeros (c, e) = (c, e)"
  by (simp add: strip_zeros.simps)

lemma upto_16: "[1..16] = 1 # 2 # 3 # [4..16]"
  by (simp add: upto_rec1)

lemma step_k:
  assumes d: "1 \<le> d" "d \<le> 1000" and k: "- 1 \<le> k" "k \<le> 2"
    and lo: "10 ^ nat (k + 1) \<le> d" and hi: "d < 10 ^ nat (k + 2)"
    and n: "1 \<le> n" "n \<le> k + 2"
  shows "shortest_decimal (round_binary64 (of_int d / 10)) (n # ns) =
     (if 10 ^ nat (k + 2 - n) dvd d then (d div 10 ^ nat (k + 2 - n), k + 1 - n)
      else shortest_decimal (round_binary64 (of_int d / 10)) ns)"
proof -
  have il: "ilog 10 (round_binary64 (of_int d / 10)) = k"
    using d k(1) lo hi by (rule ilog10_tenths)
  have "shortest_decimal (round_binary64 (of_int d / 10)) (n # ns) =
     (if 10 ^ nat (k + 1 - n + 1) dvd d then (d div 10 ^ nat (k + 1 - n + 1), k + 1 - n)
      else shortest_decimal (round_binary64 (of_int d / 10)) ns)"
    using n k by (intro shortest_step [OF d refl]) (simp_all add: il)
  moreover have "k + 1 - n + 1 = k + 2 - n" by simp
  ultimately show ?thesis by (simp only:)
qed

lemma tenths_pos:
  assumes "1 \<le> d" "d \<le> 1000"
  shows "round_binary64 (of_int d / 10) \<noteq> 0"
proof -
  have close: "\<bar>round_binary64 (of_int d / 10) - of_int d / 10\<bar> \<le> 1 / 2 ^ 46"
    using assms by (intro tenths_close) simp_all
  have tiny: "(1::rat) / 2 ^ 46 < 1 / 10" by simp
  have "(of_int 1 :: rat) \<le> of_int d" using assms(1) by (simp only: of_int_le_iff)
  then have "(1::rat) / 10 \<le> of_int d / 10" by simp
  with close tiny show ?thesis by linarith
qed

lemma repr_of_pair:
  assumes "r \<noteq> 0" "shortest_decimal r [1..16] = (c, e)" "c mod 10 \<noteq> 0"
  shows "float_repr_mag r =
     (let ds = str_int c; n = int (length ds); decpt = e + n
        in if - 4 < decpt \<and> decpt \<le> 16 then
             (if decpt \<le> 0 then ''0.'' @ replicate (nat (- decpt)) CHR ''0'' @ ds
              else if n \<le> decpt then ds @ replicate (nat (decpt - n)) CHR ''0'' @ ''.0''
              else take (nat decpt) ds @ ''.'' @ drop (nat decpt) ds)
           else take 1 ds @ (if 1 < n then ''.'' @ drop 1 ds else [])
                @ ''e'' @ (if decpt - 1 < 0 then ''-'' else ''+'')
                @ (if \<bar>decpt - 1\<bar> < 10 then ''0'' else []) @ str_int \<bar>decpt - 1\<bar>)"
  using assms by (simp add: float_repr_mag_def strip_zeros_id)

lemma char_of_48: "char_of (48::int) = CHR ''0''" by code_simp
lemma char_of_49: "char_of (49::int) = CHR ''1''" by code_simp

lemma repr_tenths:
  assumes d: "0 \<le> d" "d \<le> 1000"
  shows "float_repr_mag (round_binary64 (of_int d / 10)) = tenths_str d"
proof -
  define r where "r = round_binary64 (of_int d / 10)"
  consider "d = 0" | "1 \<le> d" "d < 10" | "10 \<le> d" "d < 100" | "100 \<le> d" "d < 1000"
    | "d = 1000"
    using d by linarith
  then show ?thesis
  proof cases
    case 1
    then show ?thesis
      by (simp add: round_binary64_def float_repr_mag_def tenths_str_def str_int_1 char_of_48)
  next
    case 2
    then have d1: "1 \<le> d" "d \<le> 1000" by simp_all
    have "shortest_decimal r (1 # 2 # 3 # [4..16]) = (d, - 1)"
      unfolding r_def using step_k [OF d1, of "- 1" 1] 2 by simp
    then have sd: "shortest_decimal r [1..16] = (d, - 1)" by (simp only: upto_16)
    have m: "d mod 10 \<noteq> 0" using 2 by simp
    from repr_of_pair [OF _ sd m] tenths_pos [OF d1] 2 show ?thesis
      by (simp add: r_def tenths_str_def str_int_1 char_of_48)
  next
    case 3
    then have d1: "1 \<le> d" "d \<le> 1000" by simp_all
    have s1: "shortest_decimal r (1 # 2 # 3 # [4..16]) =
        (if 10 dvd d then (d div 10, 0) else shortest_decimal r (2 # 3 # [4..16]))"
      unfolding r_def using step_k [OF d1, of 0 1] 3 by simp
    have s2: "shortest_decimal r (2 # 3 # [4..16]) = (d, - 1)"
      unfolding r_def using step_k [OF d1, of 0 2] 3 by simp
    show ?thesis
    proof (cases "10 dvd d")
      case True
      then obtain c where c: "d = 10 * c" by (auto simp: dvd_def)
      with 3 have cr: "1 \<le> c" "c < 10" by simp_all
      have sd: "shortest_decimal r [1..16] = (c, 0)"
        using s1 True by (simp add: upto_16 c)
      have m: "c mod 10 \<noteq> 0" using cr by simp
      from repr_of_pair [OF _ sd m] tenths_pos [OF d1] cr show ?thesis
        by (simp add: r_def tenths_str_def str_int_1 char_of_48 c)
    next
      case False
      have sd: "shortest_decimal r [1..16] = (d, - 1)"
        using s1 s2 False by (simp add: upto_16)
      have m: "d mod 10 \<noteq> 0" using False by (simp add: dvd_eq_mod_eq_0)
      have dm: "0 \<le> d mod 10" "d mod 10 < 10" by simp_all
      have dd: "0 \<le> d div 10" "d div 10 < 10" using 3 by presburger+
      from repr_of_pair [OF _ sd m] tenths_pos [OF d1] 3 show ?thesis
        by (simp add: r_def tenths_str_def str_int_2 str_int_1 [OF dm] str_int_1 [OF dd])
    qed
  next
    case 4
    then have d1: "1 \<le> d" "d \<le> 1000" by simp_all
    have s1: "shortest_decimal r (1 # 2 # 3 # [4..16]) =
        (if 100 dvd d then (d div 100, 1) else shortest_decimal r (2 # 3 # [4..16]))"
      unfolding r_def using step_k [OF d1, of 1 1] 4 by simp
    have s2: "shortest_decimal r (2 # 3 # [4..16]) =
        (if 10 dvd d then (d div 10, 0) else shortest_decimal r (3 # [4..16]))"
      unfolding r_def using step_k [OF d1, of 1 2] 4 by simp
    have s3: "shortest_decimal r (3 # [4..16]) = (d, - 1)"
      unfolding r_def using step_k [OF d1, of 1 3] 4 by simp
    show ?thesis
    proof (cases "100 dvd d")
      case True
      then obtain c where c: "d = 100 * c" by (auto simp: dvd_def)
      with 4 have cr: "1 \<le> c" "c < 10" by simp_all
      have sd: "shortest_decimal r [1..16] = (c, 1)"
        using s1 True by (simp add: upto_16 c)
      have m: "c mod 10 \<noteq> 0" using cr by simp
      have c10: "10 \<le> 10 * c" "10 * c < 100" using cr by simp_all
      from repr_of_pair [OF _ sd m] tenths_pos [OF d1] cr show ?thesis
        by (simp add: r_def tenths_str_def str_int_1 str_int_2 [OF c10] char_of_48 c)
    next
      case n100: False
      show ?thesis
      proof (cases "10 dvd d")
        case True
        then obtain c where c: "d = 10 * c" by (auto simp: dvd_def)
        with 4 have cr: "10 \<le> c" "c < 100" by simp_all
        have "\<not> 10 dvd c" using n100 c by (auto simp: dvd_def)
        then have m: "c mod 10 \<noteq> 0" by (simp add: dvd_eq_mod_eq_0)
        have sd: "shortest_decimal r [1..16] = (c, 0)"
          using s1 s2 n100 True by (simp add: upto_16) (simp add: c)
        from repr_of_pair [OF _ sd m] tenths_pos [OF d1] cr show ?thesis
          by (simp add: r_def tenths_str_def str_int_1 str_int_2 char_of_48 c)
      next
        case False
        have sd: "shortest_decimal r [1..16] = (d, - 1)"
          using s1 s2 s3 n100 False by (simp add: upto_16)
        have m: "d mod 10 \<noteq> 0" using False by (simp add: dvd_eq_mod_eq_0)
        have dm: "0 \<le> d mod 10" "d mod 10 < 10" by simp_all
        have dd: "10 \<le> d div 10" "d div 10 < 100" using 4 by presburger+
        from repr_of_pair [OF _ sd m] tenths_pos [OF d1] 4 show ?thesis
          by (simp add: r_def tenths_str_def str_int_3 str_int_2 [OF dd] str_int_1 [OF dm]
                zdiv_zmult2_eq)
      qed
    qed
  next
    case 5
    then have d1: "1 \<le> d" "d \<le> 1000" by simp_all
    have "shortest_decimal r (1 # 2 # 3 # [4..16]) = (1, 2)"
      unfolding r_def using step_k [OF d1, of 2 1] 5 by simp
    then have sd: "shortest_decimal r [1..16] = (1, 2)" by (simp only: upto_16)
    from repr_of_pair [OF _ sd] tenths_pos [OF d1] show ?thesis
      by (simp add: r_def tenths_str_def str_int_1 str_int_3 char_of_48 char_of_49 5
            numeral_2_eq_2)
  qed
qed

lemma response_rate_returns:
  assumes "0 \<le> successful_pings n" and "0 \<le> failed_pings n"
  shows "\<exists>rate. response_rate n = Inr rate"
proof (cases "successful_pings n = 0")
  case True
  then show ?thesis by (simp add: response_rate_def)
next
  case False
  with assms have "0 < successful_pings n" by simp
  from response_rate_value [OF this assms(2)] show ?thesis by blast
qed

section \<open>Response rate\<close>

text \<open>
  C1. A node with no successful probe reports the rate \<open>0%\<close>, whatever its failure
  count is.
\<close>

theorem response_rate_zero_successes:
  "response_rate (n\<lparr>successful_pings := 0, failed_pings := f\<rparr>) = Inr ''0%''"
  by (simp add: response_rate_def)

text \<open>
  C2. For a node with a nonzero success count (counts are never negative), the rate is
  \<open>round(successes / (successes + failures) * 100, 1)\<close> written with exactly one
  decimal digit and a trailing percent sign: the text is the integer part of the rounded
  value, a point, its single tenths digit and \<open>%\<close>. The rounded value lies between 0
  and 100 and differs from the exact percentage by at most 0.05 plus the float error.
\<close>

theorem response_rate_rounded:
  assumes "successful_pings n \<noteq> 0" and "0 \<le> successful_pings n" and "0 \<le> failed_pings n"
  shows "response_rate n =
           Inr (tenths_str (percent_tenths (successful_pings n) (failed_pings n)) @ ''%'') \<and>
         0 \<le> percent_tenths (successful_pings n) (failed_pings n) \<and>
         percent_tenths (successful_pings n) (failed_pings n) \<le> 1000 \<and>
         \<bar>of_int (percent_tenths (successful_pings n) (failed_pings n)) / 10
            - 100 * (of_int (successful_pings n)
                     / of_int (successful_pings n + failed_pings n))\<bar>
           \<le> (1 / 20 + 1 / 2 ^ 45 :: rat)"
proof -
  from assms have s: "0 < successful_pings n" by simp
  note st = percent_steps [OF s assms(3)]
  from response_rate_value [OF s assms(3)] repr_tenths [OF st(9,10)]
  have "response_rate n =
           Inr (tenths_str (percent_tenths (successful_pings n) (failed_pings n)) @ ''%'')"
    by (simp only:)
  with st(9,10,11) show ?thesis by blast
qed

theorem response_rate_rounded_witness:
  "successful_pings ((Node_init ''0050.569f.0c60'' (Some ''10.25.5.37'') ''Po6'' ''4'')
      \<lparr>successful_pings := 2, failed_pings := 1\<rparr>) \<noteq> 0 \<and>
   response_rate ((Node_init ''0050.569f.0c60'' (Some ''10.25.5.37'') ''Po6'' ''4'')
      \<lparr>successful_pings := 2, failed_pings := 1\<rparr>) = Inr ''66.7%''"
proof -
  have t: "tenths_str (percent_tenths 2 1) = ''66.7''" by code_simp
  show ?thesis
    using response_rate_rounded
      [of "(Node_init ''0050.569f.0c60'' (Some ''10.25.5.37'') ''Po6'' ''4'')
             \<lparr>successful_pings := 2, failed_pings := 1\<rparr>"] t
    by simp
qed

text \<open>
  C10. For non-negative counts, both zero included, \<open>response_rate\<close> returns a text
  and raises nothing. The division is reached only when the success count is not zero;
  then the divisor is positive and the division returns a float. Without the test the
  node with both counts zero would divide zero by zero, which raises.
\<close>

theorem response_rate_total:
  assumes "0 \<le> successful_pings n" and "0 \<le> failed_pings n"
  shows "(\<exists>rate. response_rate n = Inr rate) \<and>
         (successful_pings n \<noteq> 0 \<longrightarrow>
            0 < successful_pings n + failed_pings n \<and>
            (\<exists>q. int_truediv (successful_pings n) (successful_pings n + failed_pings n) = Inr q)) \<and>
         int_truediv 0 (0 + 0) = Inl ZeroDivisionError"
proof (cases "successful_pings n = 0")
  case True
  then show ?thesis by (simp add: response_rate_def int_truediv_def)
next
  case False
  with assms have s: "0 < successful_pings n" by simp
  note st = percent_steps [OF s assms(2)]
  have small: "(1::rat) / 2 ^ 53 \<le> 1" by simp
  have "round_binary64 (of_int (successful_pings n) / of_int (successful_pings n + failed_pings n))
          \<le> 257"
    using st(4) small by linarith
  then have "\<not> float_overflow (round_binary64
       (of_int (successful_pings n) / of_int (successful_pings n + failed_pings n)))"
    by (rule small_no_overflow)
  then have "\<exists>q. int_truediv (successful_pings n) (successful_pings n + failed_pings n) = Inr q"
    using s assms(2) by (simp add: int_truediv_def Let_def)
  moreover have "0 < successful_pings n + failed_pings n" using s assms(2) by simp
  moreover have "\<exists>rate. response_rate n = Inr rate"
    using response_rate_value [OF s assms(2)] by blast
  moreover have "int_truediv 0 (0 + 0) = Inl ZeroDivisionError"
    by (simp add: int_truediv_def)
  ultimately show ?thesis by blast
qed

theorem response_rate_total_witness:
  "response_rate (Node_init ''0050.569f.0c60'' None ''Po6'' ''4'') = Inr ''0%'' \<and>
   (\<exists>rate. response_rate ((Node_init ''0050.569f.0c60'' (Some ''10.25.5.37'') ''Po6'' ''4'')
      \<lparr>successful_pings := 1, failed_pings := 0\<rparr>) = Inr rate)"
  using response_rate_total [of "Node_init ''0050.569f.0c60'' None ''Po6'' ''4''"]
    response_rate_total [of "(Node_init ''0050.569f.0c60'' (Some ''10.25.5.37'') ''Po6'' ''4'')
      \<lparr>successful_pings := 1, failed_pings := 0\<rparr>"]
  by (simp add: Node_init_def response_rate_def)

section \<open>Probe statistics\<close>

text \<open>
  C8. One probe makes exactly one of two transitions. On success (exit status 0) the
  success counter grows by one, the failure counter stays and the last outcome is true;
  on failure the failure counter grows by one, the success counter stays and the last
  outcome is false. So neither counter decreases, their sum grows by exactly one, and
  the other fields of the node stay as they are.
\<close>

theorem ping_transition:
  "(response = 0 \<longrightarrow>
      successful_pings (ping response n) = successful_pings n + 1 \<and>
      failed_pings (ping response n) = failed_pings n \<and>
      last_ping_successful (ping response n)) \<and>
   (response \<noteq> 0 \<longrightarrow>
      failed_pings (ping response n) = failed_pings n + 1 \<and>
      successful_pings (ping response n) = successful_pings n \<and>
      \<not> last_ping_successful (ping response n)) \<and>
   successful_pings n \<le> successful_pings (ping response n) \<and>
   failed_pings n \<le> failed_pings (ping response n) \<and>
   successful_pings (ping response n) + failed_pings (ping response n) =
     successful_pings n + failed_pings n + 1 \<and>
   mac_address (ping response n) = mac_address n \<and>
   ip_address (ping response n) = ip_address n \<and>
   interface (ping response n) = interface n \<and>
   vlan (ping response n) = vlan n \<and>
   name (ping response n) = name n"
  by (simp add: ping_def)

theorem ping_transition_witness:
  "successful_pings (ping 0 (Node_init ''0050.569f.0c60'' (Some ''10.25.5.37'') ''Po6'' ''4'')) = 1 \<and>
   last_ping_successful (ping 0 (Node_init ''0050.569f.0c60'' (Some ''10.25.5.37'') ''Po6'' ''4'')) \<and>
   failed_pings (ping 1 (Node_init ''0050.569f.0c60'' (Some ''10.25.5.37'') ''Po6'' ''4'')) = 1 \<and>
   \<not> last_ping_successful (ping 1 (Node_init ''0050.569f.0c60'' (Some ''10.25.5.37'') ''Po6'' ''4''))"
  using ping_transition [of 0 "Node_init ''0050.569f.0c60'' (Some ''10.25.5.37'') ''Po6'' ''4''"]
        ping_transition [of 1 "Node_init ''0050.569f.0c60'' (Some ''10.25.5.37'') ''Po6'' ''4''"]
  by (simp add: Node_init_def)

section \<open>Display name\<close>

text \<open>
  C9, as the claim states it, fails: the Name column of a row is the node's \<open>name\<close>
  field itself. A node whose lookup failed, with the address 10.25.5.37, gets a row whose
  Name cell is \<open>None\<close>, not the address.
\<close>

theorem name_column_not_address:
  "name (nslookup (\<lambda>a. None) (Node_init ''0050.569f.0c60'' (Some ''10.25.5.37'') ''Po6'' ''4''))
     = None \<and>
   update_row \<lparr>headers = headers Table_init, rows = [[]]\<rparr>
     (nslookup (\<lambda>a. None) (Node_init ''0050.569f.0c60'' (Some ''10.25.5.37'') ''Po6'' ''4'')) 0 =
     Inr \<lparr>headers = headers Table_init,
          rows = [[Some ''Po6'', Some ''4'', Some ''0050.569f.0c60'', Some ''10.25.5.37'',
                   None, Some ''0%'']]\<rparr>"
  by (simp add: nslookup_def Node_init_def update_row_def node_row_def response_rate_def)

text \<open>
  C9, amended. For a node without a name, \<open>__str__\<close> gives its network address. Its
  row, built by seeding or by \<open>update_row\<close>, has \<open>None\<close> in the Name column and the
  address in the IP Address column.
\<close>

theorem absent_name_display:
  "name n = None \<Longrightarrow>
     Node_str n = ip_address n \<and>
     (\<forall>r. node_row n = Inr r \<longrightarrow> r ! 3 = ip_address n \<and> r ! 4 = None) \<and>
     (\<forall>t i t' j. update_row t n i = Inr t' \<longrightarrow>
         j = (if i < 0 then i + int (length (rows t)) else i) \<longrightarrow>
         rows t' ! nat j ! 3 = ip_address n \<and> rows t' ! nat j ! 4 = None)"
  by (auto simp: Node_str_def node_row_def update_row_def Let_def split: sum.splits if_splits)

theorem absent_name_display_witness:
  "name (Node_init ''0050.569f.0c60'' (Some ''10.25.5.37'') ''Po6'' ''4'') = None \<and>
   Node_str (Node_init ''0050.569f.0c60'' (Some ''10.25.5.37'') ''Po6'' ''4'') = Some ''10.25.5.37''"
  using absent_name_display [of "Node_init ''0050.569f.0c60'' (Some ''10.25.5.37'') ''Po6'' ''4''"]
  by (simp add: Node_init_def)

section \<open>Persistence\<close>

lemma writelines_append:
  "fs fname = Some old \<Longrightarrow> writelines fname s fs = fs(fname \<mapsto> old @ s)"
proof (induction s arbitrary: fs old)
  case Nil
  then show ?case by (auto simp: writelines_def)
next
  case (Cons c s)
  have step: "writelines fname (c # s) fs = writelines fname s (fs(fname \<mapsto> old @ [c]))"
    using Cons.prems by (simp add: writelines_def)
  show ?case
    unfolding step by (subst Cons.IH [where old = "old @ [c]"]) simp_all
qed

lemma save_content:
  "save tab sd t start end_time fs =
     fs(''output_table.txt'' \<mapsto>
          sd start @ '' - '' @ sd end_time @ [CHR 0x0A, CHR 0x0A] @ tab (rows t) (headers t))"
  unfolding save_def open_w_def
  by (simp add: writelines_append)

text \<open>
  C6. \<open>save\<close> replaces the whole file: its content afterwards is the two timestamps, a
  blank line and the rendering of the table, whatever the file held before. Saving twice
  with the same table and the same timestamps leaves exactly what saving once leaves.
\<close>

theorem save_idempotent:
  "save tab sd t start end_time (save tab sd t start end_time fs) =
     save tab sd t start end_time fs \<and>
   save tab sd t start end_time fs ''output_table.txt'' =
     Some (sd start @ '' - '' @ sd end_time @ [CHR 0x0A, CHR 0x0A] @ tab (rows t) (headers t)) \<and>
   save tab sd t start end_time fs' ''output_table.txt'' =
     save tab sd t start end_time fs ''output_table.txt''"
  by (simp add: save_content)

section \<open>Pattern matching\<close>

text \<open>
  A match takes text of the pattern's shape from the start of the input, and an input
  that starts with text of the pattern's shape has a match.
\<close>

lemma first_down_Some:
  "first_down f lo k = Some r \<Longrightarrow> \<exists>j. j \<le> k \<and> (lo \<le> j \<or> j = k) \<and> f j = Some r"
proof (induction f lo k rule: first_down.induct)
  case (1 f lo k)
  show ?case
  proof (cases "f k")
    case (Some r')
    with "1.prems" show ?thesis by (auto simp: first_down.simps [of f lo k])
  next
    case None
    with "1.prems" have lt: "lo < k" and rec: "first_down f lo (k - 1) = Some r"
      by (auto simp: first_down.simps [of f lo k] split: if_splits)
    from "1.IH" [OF None lt rec] obtain j where "j \<le> k - 1" "lo \<le> j \<or> j = k - 1" "f j = Some r"
      by blast
    with lt show ?thesis by (intro exI [of _ j]) auto
  qed
qed

lemma take_takeWhile_all:
  "j \<le> length (takeWhile p s) \<Longrightarrow> list_all p (take j s) \<and> length (take j s) = j"
proof -
  assume j: "j \<le> length (takeWhile p s)"
  have "take j s = take j (takeWhile p s)"
    using j by (metis takeWhile_dropWhile_id take_append diff_is_0_eq' take_0 append_Nil2)
  moreover have "list_all p (takeWhile p s)"
    by (simp add: list_all_iff) (meson set_takeWhileD)
  ultimately show ?thesis
    using j by (auto simp: list_all_iff dest: in_set_takeD)
qed

lemma match_items_sound:
  "match_items its s = Some parts \<Longrightarrow>
     list_all2 fits its parts \<and> (\<exists>rest. s = concat parts @ rest)"
proof (induction its arbitrary: s parts)
  case Nil
  then show ?case by simp
next
  case (Cons it its)
  obtain p lo hi where it: "it = Rep p lo hi" by (cases it)
  define avail where "avail = length (takeWhile p s)"
  define k where "k = (case hi of None \<Rightarrow> avail | Some h \<Rightarrow> min h avail)"
  from Cons.prems have lo_k: "lo \<le> k"
    and fd: "first_down (\<lambda>j. map_option ((#) (take j s)) (match_items its (drop j s))) lo k
               = Some parts"
    unfolding k_def avail_def by (auto simp: it Let_def split: if_splits)
  from first_down_Some [OF fd] obtain j ps where j: "j \<le> k" "lo \<le> j"
    and ps: "match_items its (drop j s) = Some ps" and parts: "parts = take j s # ps"
    using lo_k by auto
  have k_avail: "k \<le> avail" and k_hi: "\<And>h. hi = Some h \<Longrightarrow> k \<le> h"
    by (auto simp: k_def split: option.splits)
  from j k_avail have "j \<le> length (takeWhile p s)" by (simp add: avail_def)
  from take_takeWhile_all [OF this] have pj: "list_all p (take j s)" "length (take j s) = j"
    by auto
  from Cons.IH [OF ps] obtain rest where
    ih: "list_all2 fits its ps" "drop j s = concat ps @ rest" by blast
  have "fits it (take j s)"
    using pj j k_hi by (auto simp: it split: option.splits)
  with ih(1) have all: "list_all2 fits (it # its) parts"
    by (simp add: parts)
  have whole: "s = concat parts @ rest"
  proof -
    have "concat parts @ rest = take j s @ (concat ps @ rest)" by (simp add: parts)
    also have "\<dots> = take j s @ drop j s" by (simp only: ih(2))
    also have "\<dots> = s" by simp
    finally show ?thesis by simp
  qed
  from all whole show ?case by blast
qed

lemma first_down_complete:
  "lo \<le> j \<Longrightarrow> j \<le> k \<Longrightarrow> f j \<noteq> None \<Longrightarrow> first_down f lo k \<noteq> None"
proof (induction f lo k rule: first_down.induct)
  case (1 f lo k)
  show ?case
  proof (cases "f k")
    case (Some r)
    then show ?thesis by (simp add: first_down.simps [of f lo k])
  next
    case None
    with "1.prems" have "j \<noteq> k" by auto
    with "1.prems" have lt: "lo < k" and le: "j \<le> k - 1" by auto
    from "1.IH" [OF None lt "1.prems"(1) le "1.prems"(3)] None lt show ?thesis
      by (simp add: first_down.simps [of f lo k])
  qed
qed

lemma takeWhile_prefix_length:
  "list_all p part \<Longrightarrow> length part \<le> length (takeWhile p (part @ rest))"
  by (induction part) auto

lemma match_items_complete:
  "list_all2 fits its parts \<Longrightarrow> match_items its (concat parts @ rest) \<noteq> None"
proof (induction its arbitrary: parts)
  case Nil
  then show ?case by simp
next
  case (Cons it its)
  then obtain part ps where parts: "parts = part # ps" and fit: "fits it part"
    and rest_fit: "list_all2 fits its ps"
    by (auto simp: list_all2_Cons1)
  obtain p lo hi where it: "it = Rep p lo hi" by (cases it)
  define s where "s = concat parts @ rest"
  have s: "s = part @ (concat ps @ rest)" by (simp add: s_def parts)
  define k where "k = (case hi of None \<Rightarrow> length (takeWhile p s)
                        | Some h \<Rightarrow> min h (length (takeWhile p s)))"
  from fit have all: "list_all p part" and lo: "lo \<le> length part"
    and hi: "\<And>h. hi = Some h \<Longrightarrow> length part \<le> h"
    by (auto simp: it)
  have "length part \<le> length (takeWhile p s)"
    unfolding s by (rule takeWhile_prefix_length [OF all])
  with hi have le_k: "length part \<le> k" by (auto simp: k_def split: option.splits)
  have "match_items its (drop (length part) s) \<noteq> None"
    using Cons.IH [OF rest_fit] by (simp add: s)
  then have "map_option ((#) (take (length part) s)) (match_items its (drop (length part) s))
               \<noteq> None" by simp
  from first_down_complete [where f = "\<lambda>j. map_option ((#) (take j s)) (match_items its (drop j s))",
        OF lo le_k this]
  have "first_down (\<lambda>j. map_option ((#) (take j s)) (match_items its (drop j s))) lo k \<noteq> None" .
  moreover have "\<not> k < lo" using lo le_k by simp
  ultimately have "match_items (it # its) s \<noteq> None"
    unfolding it k_def by (simp add: Let_def)
  then show ?case by (simp add: s_def)
qed

lemma len1_all: "list_all p xs \<Longrightarrow> length xs = 1 \<Longrightarrow> \<exists>c. xs = [c] \<and> p c"
  by (cases xs) auto

lemma lit_fits: "fits (lit c) part \<longleftrightarrow> part = [c]"
proof
  assume "fits (lit c) part"
  then have "list_all (\<lambda>x. x = c) part" "length part = 1" by (auto simp: lit_def)
  from len1_all [OF this] show "part = [c]" by auto
qed (simp add: lit_def)

lemma match_mac_line_shape:
  assumes "match_mac_line line = Some (vl, mac)"
  shows "\<exists>sp gap rest. line = ''*'' @ [sp] @ vl @ gap @ mac @ rest \<and> is_space sp \<and>
           vl \<noteq> [] \<and> list_all is_digit vl \<and> gap \<noteq> [] \<and> list_all is_space gap \<and>
           length mac = 14 \<and> list_all is_mac_char mac"
proof -
  from assms obtain star sp gap where
    m: "match_items mac_pattern line = Some [star, sp, vl, gap, mac]"
    by (auto simp: match_mac_line_def split: option.splits list.splits)
  from match_items_sound [OF m] obtain rest where
    f: "list_all2 fits mac_pattern [star, sp, vl, gap, mac]"
    and l: "line = concat [star, sp, vl, gap, mac] @ rest" by blast
  from f have star: "star = ''*''" and sp: "list_all is_space sp" "length sp = 1"
    and vl: "list_all is_digit vl" "1 \<le> length vl"
    and gap: "list_all is_space gap" "1 \<le> length gap"
    and mac: "list_all is_mac_char mac" "length mac = 14"
    by (auto simp: mac_pattern_def lit_fits)
  from len1_all [OF sp] obtain c where c: "sp = [c]" "is_space c" by blast
  have "line = ''*'' @ [c] @ vl @ gap @ mac @ rest" using l star c by simp
  moreover have "vl \<noteq> []" "gap \<noteq> []" using vl gap by auto
  ultimately show ?thesis using c vl gap mac by blast
qed

lemma match_mac_line_marker:
  "\<not> (\<exists>rest. line = CHR ''*'' # rest) \<Longrightarrow> match_mac_line line = None"
proof (rule ccontr)
  assume no: "\<not> (\<exists>rest. line = CHR ''*'' # rest)" and "match_mac_line line \<noteq> None"
  then obtain vl mac where "match_mac_line line = Some (vl, mac)" by auto
  from match_mac_line_shape [OF this] no show False by auto
qed

lemma match_arp_shape:
  assumes "match_arp output = Some ip"
  shows "\<exists>a b c d ws hh mm ss ws2 rest.
           output = ip @ ws @ hh @ '':'' @ mm @ '':'' @ ss @ ws2 @ rest \<and>
           ip = a @ ''.'' @ b @ ''.'' @ c @ ''.'' @ d \<and>
           list_all2 fits arp_pattern
             [a, ''.'', b, ''.'', c, ''.'', d, ws, hh, '':'', mm, '':'', ss, ws2]"
proof -
  from assms obtain parts where m: "match_items arp_pattern output = Some parts"
    and ip: "ip = concat (take 7 parts)"
    by (auto simp: match_arp_def)
  from match_items_sound [OF m] obtain rest where
    f: "list_all2 fits arp_pattern parts" and l: "output = concat parts @ rest" by blast
  from f obtain a d1 b d2 c d3 d ws hh c1 mm c2 ss ws2 where
    parts: "parts = [a, d1, b, d2, c, d3, d, ws, hh, c1, mm, c2, ss, ws2]"
    unfolding arp_pattern_def by (auto simp: list_all2_Cons1)
  from f have lits: "d1 = ''.''" "d2 = ''.''" "d3 = ''.''" "c1 = '':''" "c2 = '':''"
    unfolding arp_pattern_def parts by (simp_all add: lit_fits)
  have "output = ip @ ws @ hh @ '':'' @ mm @ '':'' @ ss @ ws2 @ rest"
    unfolding l ip parts lits by simp
  moreover have "ip = a @ ''.'' @ b @ ''.'' @ c @ ''.'' @ d"
    unfolding ip parts lits by simp
  ultimately show ?thesis using f unfolding parts lits by blast
qed

lemma match_arp_iff:
  "match_arp output \<noteq> None \<longleftrightarrow>
     (\<exists>parts rest. list_all2 fits arp_pattern parts \<and> output = concat parts @ rest)"
proof
  assume "match_arp output \<noteq> None"
  then obtain parts where "match_items arp_pattern output = Some parts"
    by (auto simp: match_arp_def)
  from match_items_sound [OF this]
  show "\<exists>parts rest. list_all2 fits arp_pattern parts \<and> output = concat parts @ rest"
    by blast
next
  assume "\<exists>parts rest. list_all2 fits arp_pattern parts \<and> output = concat parts @ rest"
  then obtain parts rest where "list_all2 fits arp_pattern parts" "output = concat parts @ rest"
    by blast
  with match_items_complete [of arp_pattern parts rest] show "match_arp output \<noteq> None"
    by (simp add: match_arp_def)
qed

lemma match_mac_line_iff:
  "match_mac_line line \<noteq> None \<longleftrightarrow>
     (\<exists>sp vl gap mac rest. line = ''*'' @ [sp] @ vl @ gap @ mac @ rest \<and> is_space sp \<and>
        vl \<noteq> [] \<and> list_all is_digit vl \<and> gap \<noteq> [] \<and> list_all is_space gap \<and>
        length mac = 14 \<and> list_all is_mac_char mac)"
proof
  assume "match_mac_line line \<noteq> None"
  then obtain vl mac where "match_mac_line line = Some (vl, mac)" by auto
  from match_mac_line_shape [OF this]
  show "\<exists>sp vl gap mac rest. line = ''*'' @ [sp] @ vl @ gap @ mac @ rest \<and> is_space sp \<and>
        vl \<noteq> [] \<and> list_all is_digit vl \<and> gap \<noteq> [] \<and> list_all is_space gap \<and>
        length mac = 14 \<and> list_all is_mac_char mac" by blast
next
  assume "\<exists>sp vl gap mac rest. line = ''*'' @ [sp] @ vl @ gap @ mac @ rest \<and> is_space sp \<and>
        vl \<noteq> [] \<and> list_all is_digit vl \<and> gap \<noteq> [] \<and> list_all is_space gap \<and>
        length mac = 14 \<and> list_all is_mac_char mac"
  then obtain sp vl gap mac rest where l: "line = ''*'' @ [sp] @ vl @ gap @ mac @ rest"
    and sh: "is_space sp" "vl \<noteq> []" "list_all is_digit vl" "gap \<noteq> []" "list_all is_space gap"
      "length mac = 14" "list_all is_mac_char mac" by blast
  have le: "1 \<le> length vl" "1 \<le> length gap" using sh(2,4) by (simp_all add: Suc_le_eq)
  have "list_all2 fits mac_pattern [''*'', [sp], vl, gap, mac]"
    using sh le by (simp add: mac_pattern_def lit_fits)
  from match_items_complete [OF this, of rest] obtain parts where
    m: "match_items mac_pattern line = Some parts" by (auto simp: l)
  from match_items_sound [OF m] have "list_all2 fits mac_pattern parts" by blast
  then obtain p1 p2 p3 p4 p5 where "parts = [p1, p2, p3, p4, p5]"
    unfolding mac_pattern_def by (auto simp: list_all2_Cons1)
  with m show "match_mac_line line \<noteq> None" by (simp add: match_mac_line_def)
qed

lemma set_map_filter_iff:
  "p \<in> set (List.map_filter f xs) \<longleftrightarrow> (\<exists>x \<in> set xs. f x = Some p)"
  by (induction xs) (auto split: option.splits)

lemma get_vlan_members:
  "p \<in> set (get_vlan_and_mac_addresses sc iface) \<longleftrightarrow>
     (\<exists>line \<in> set (split_on (CHR 0x0A) (sc (''show mac address-table interface '' @ iface))).
        match_mac_line line = Some p)"
  by (simp add: get_vlan_and_mac_addresses_def Let_def set_map_filter_iff)

section \<open>Address-table parsing\<close>

text \<open>
  C3, as the claim states it, fails on its example: in the claim's line two blanks follow
  the marker, the pattern allows exactly one character between the marker and the VLAN
  number, and Discovery extracts nothing from that line.
\<close>

theorem address_table_two_spaces:
  "get_vlan_and_mac_addresses
      (\<lambda>cmd. ''*  4        0050.569f.0c60    dynamic     ~~~      F    F  Po6'') ''Po6'' = []"
  by code_simp

text \<open>
  C3, amended. From the line of the source's comment, with one blank after the marker,
  Discovery extracts VLAN 4 and MAC 0050.569f.0c60. A line matches exactly when it
  begins with the marker \<open>*\<close>, one whitespace character, one or more decimal digits
  (the VLAN), one or more whitespace characters and 14 characters that are lowercase
  hexadecimal digits or dots (the MAC); the pair is taken from such a decomposition. A
  line that does not begin with the marker yields no pair, and every pair Discovery
  returns comes from a matching line of the output.
\<close>

theorem address_table_parsing:
  "get_vlan_and_mac_addresses
      (\<lambda>cmd. ''* 4        0050.569f.0c60    dynamic     ~~~      F    F  Po6'') iface =
     [(''4'', ''0050.569f.0c60'')] \<and>
   (\<forall>line vl mac. match_mac_line line = Some (vl, mac) \<longrightarrow>
      (\<exists>sp gap rest. line = ''*'' @ [sp] @ vl @ gap @ mac @ rest \<and> is_space sp \<and>
         vl \<noteq> [] \<and> list_all is_digit vl \<and> gap \<noteq> [] \<and> list_all is_space gap \<and>
         length mac = 14 \<and> list_all is_mac_char mac)) \<and>
   (\<forall>line. (match_mac_line line \<noteq> None) =
      (\<exists>sp vl gap mac rest. line = ''*'' @ [sp] @ vl @ gap @ mac @ rest \<and> is_space sp \<and>
         vl \<noteq> [] \<and> list_all is_digit vl \<and> gap \<noteq> [] \<and> list_all is_space gap \<and>
         length mac = 14 \<and> list_all is_mac_char mac)) \<and>
   (\<forall>line. \<not> (\<exists>rest. line = CHR ''*'' # rest) \<longrightarrow> match_mac_line line = None) \<and>
   (\<forall>sc p. (p \<in> set (get_vlan_and_mac_addresses sc iface)) =
      (\<exists>line \<in> set (split_on (CHR 0x0A) (sc (''show mac address-table interface '' @ iface))).
         match_mac_line line = Some p))"
proof -
  have ex: "get_vlan_and_mac_addresses
      (\<lambda>cmd. ''* 4        0050.569f.0c60    dynamic     ~~~      F    F  Po6'') iface =
     [(''4'', ''0050.569f.0c60'')]"
    by code_simp
  show ?thesis
  proof (intro conjI allI impI)
    show "get_vlan_and_mac_addresses
      (\<lambda>cmd. ''* 4        0050.569f.0c60    dynamic     ~~~      F    F  Po6'') iface =
     [(''4'', ''0050.569f.0c60'')]" by (rule ex)
  qed (fact match_mac_line_shape match_mac_line_iff match_mac_line_marker get_vlan_members)+
qed


theorem address_table_parsing_witness:
  "match_mac_line ''* 4        0050.569f.0c60    dynamic     ~~~      F    F  Po6'' =
     Some (''4'', ''0050.569f.0c60'') \<and>
   (\<exists>sp gap rest.
      ''* 4        0050.569f.0c60    dynamic     ~~~      F    F  Po6'' =
        ''*'' @ [sp] @ ''4'' @ gap @ ''0050.569f.0c60'' @ rest \<and>
      is_space sp \<and> gap \<noteq> [] \<and> list_all is_space gap) \<and>
   \<not> (\<exists>rest. ''  4        0050.569f.0c60    dynamic     ~~~      F    F  Po6'' = CHR ''*'' # rest) \<and>
   match_mac_line ''  4        0050.569f.0c60    dynamic     ~~~      F    F  Po6'' = None"
proof -
  have m: "match_mac_line ''* 4        0050.569f.0c60    dynamic     ~~~      F    F  Po6'' =
     Some (''4'', ''0050.569f.0c60'')"
    by code_simp
  have n: "\<not> (\<exists>rest. ''  4        0050.569f.0c60    dynamic     ~~~      F    F  Po6'' =
                 CHR ''*'' # rest)"
    by simp
  note main = address_table_parsing [of "''Po6''"]
  from main have shape: "\<forall>line vl mac. match_mac_line line = Some (vl, mac) \<longrightarrow>
      (\<exists>sp gap rest. line = ''*'' @ [sp] @ vl @ gap @ mac @ rest \<and> is_space sp \<and>
         vl \<noteq> [] \<and> list_all is_digit vl \<and> gap \<noteq> [] \<and> list_all is_space gap \<and>
         length mac = 14 \<and> list_all is_mac_char mac)"
    by (elim conjE)
  from main have marker:
    "\<forall>line. \<not> (\<exists>rest. line = CHR ''*'' # rest) \<longrightarrow> match_mac_line line = None"
    by (elim conjE)
  from shape [rule_format, OF m] have
    "\<exists>sp gap rest.
      ''* 4        0050.569f.0c60    dynamic     ~~~      F    F  Po6'' =
        ''*'' @ [sp] @ ''4'' @ gap @ ''0050.569f.0c60'' @ rest \<and>
      is_space sp \<and> gap \<noteq> [] \<and> list_all is_space gap"
    by blast
  moreover from marker [rule_format, OF n] have
    "match_mac_line ''  4        0050.569f.0c60    dynamic     ~~~      F    F  Po6'' = None" .
  ultimately show ?thesis using m n by blast
qed

section \<open>Address-resolution parsing\<close>

text \<open>
  C4, as the claim states it, fails: the pattern is matched once, against the start of
  the whole output, and its whitespace runs cross line ends. In the output whose lines
  are \<open>10.25.5.37\<close> and \<open>00:08:31\<close> no line has the shape, yet the address is
  resolved; and when a header line comes first, the entry on the second line is not
  found.
\<close>

theorem address_resolution_not_by_line:
  "list_all (\<lambda>l. match_arp l = None)
     (split_on (CHR 0x0A) (''10.25.5.37'' @ [CHR 0x0A] @ ''00:08:31'' @ [CHR 0x0A])) \<and>
   get_ip_address (\<lambda>cmd. ''10.25.5.37'' @ [CHR 0x0A] @ ''00:08:31'' @ [CHR 0x0A])
     ''0050.569f.0c60'' = Some ''10.25.5.37'' \<and>
   match_arp ''10.25.5.37      00:08:31  0050.569f.0c60  Vlan4'' = Some ''10.25.5.37'' \<and>
   get_ip_address
     (\<lambda>cmd. ''Address         Age       MAC Address     Interface'' @ [CHR 0x0A] @
            ''10.25.5.37      00:08:31  0050.569f.0c60  Vlan4'')
     ''0050.569f.0c60'' = None"
  by code_simp

text \<open>
  C4, amended. For output that begins with the claim's line the resolved address is
  10.25.5.37. The pattern is matched once, at the very start of the whole output: an
  address is resolved exactly when the output begins with four groups of one to three
  digits joined by dots, whitespace, an age of three two-digit groups joined by colons,
  and whitespace again (whitespace includes line ends); the address is the dotted
  prefix. Otherwise, also when a later line has the shape, the address is \<open>None\<close>.
\<close>

theorem address_resolution_parsing:
  "(\<forall>rest. get_ip_address
       (\<lambda>cmd. ''10.25.5.37      00:08:31  0050.569f.0c60  Vlan4'' @ rest) mac =
       Some ''10.25.5.37'') \<and>
   (\<forall>sc ip. get_ip_address sc mac = Some ip \<longrightarrow>
      (\<exists>a b c d ws hh mm ss ws2 rest.
         sc (''show ip arp | include '' @ mac) =
           ip @ ws @ hh @ '':'' @ mm @ '':'' @ ss @ ws2 @ rest \<and>
         ip = a @ ''.'' @ b @ ''.'' @ c @ ''.'' @ d \<and>
         fits (Rep is_digit 1 (Some 3)) a \<and> fits (Rep is_digit 1 (Some 3)) b \<and>
         fits (Rep is_digit 1 (Some 3)) c \<and> fits (Rep is_digit 1 (Some 3)) d \<and>
         fits (Rep is_space 1 None) ws \<and>
         fits (Rep is_digit 2 (Some 2)) hh \<and> fits (Rep is_digit 2 (Some 2)) mm \<and>
         fits (Rep is_digit 2 (Some 2)) ss \<and>
         fits (Rep is_space 1 None) ws2)) \<and>
   (\<forall>sc. (get_ip_address sc mac = None) =
      (\<not> (\<exists>parts rest. list_all2 fits arp_pattern parts \<and>
             sc (''show ip arp | include '' @ mac) = concat parts @ rest)))"
proof (intro conjI allI impI)
  fix rest
  show "get_ip_address
       (\<lambda>cmd. ''10.25.5.37      00:08:31  0050.569f.0c60  Vlan4'' @ rest) mac =
       Some ''10.25.5.37''"
    by (simp add: get_ip_address_def match_arp_def arp_pattern_def lit_def is_digit_def
          is_space_def first_down.simps Let_def)
next
  fix sc ip
  assume "get_ip_address sc mac = Some ip"
  then have "match_arp (sc (''show ip arp | include '' @ mac)) = Some ip"
    by (simp add: get_ip_address_def)
  from match_arp_shape [OF this] obtain a b c d ws hh mm ss ws2 rest where
    out: "sc (''show ip arp | include '' @ mac) =
            ip @ ws @ hh @ '':'' @ mm @ '':'' @ ss @ ws2 @ rest"
    and ip: "ip = a @ ''.'' @ b @ ''.'' @ c @ ''.'' @ d"
    and f: "list_all2 fits arp_pattern
             [a, ''.'', b, ''.'', c, ''.'', d, ws, hh, '':'', mm, '':'', ss, ws2]"
    by blast
  from f have
    "fits (Rep is_digit 1 (Some 3)) a \<and> fits (Rep is_digit 1 (Some 3)) b \<and>
     fits (Rep is_digit 1 (Some 3)) c \<and> fits (Rep is_digit 1 (Some 3)) d \<and>
     fits (Rep is_space 1 None) ws \<and>
     fits (Rep is_digit 2 (Some 2)) hh \<and> fits (Rep is_digit 2 (Some 2)) mm \<and>
     fits (Rep is_digit 2 (Some 2)) ss \<and>
     fits (Rep is_space 1 None) ws2"
    unfolding arp_pattern_def by simp
  with out ip show "\<exists>a b c d ws hh mm ss ws2 rest.
         sc (''show ip arp | include '' @ mac) =
           ip @ ws @ hh @ '':'' @ mm @ '':'' @ ss @ ws2 @ rest \<and>
         ip = a @ ''.'' @ b @ ''.'' @ c @ ''.'' @ d \<and>
         fits (Rep is_digit 1 (Some 3)) a \<and> fits (Rep is_digit 1 (Some 3)) b \<and>
         fits (Rep is_digit 1 (Some 3)) c \<and> fits (Rep is_digit 1 (Some 3)) d \<and>
         fits (Rep is_space 1 None) ws \<and>
         fits (Rep is_digit 2 (Some 2)) hh \<and> fits (Rep is_digit 2 (Some 2)) mm \<and>
         fits (Rep is_digit 2 (Some 2)) ss \<and>
         fits (Rep is_space 1 None) ws2"
    by blast
next
  fix sc
  show "(get_ip_address sc mac = None) =
      (\<not> (\<exists>parts rest. list_all2 fits arp_pattern parts \<and>
             sc (''show ip arp | include '' @ mac) = concat parts @ rest))"
    unfolding get_ip_address_def Let_def
    using match_arp_iff [of "sc (''show ip arp | include '' @ mac)"] by blast
qed

theorem address_resolution_parsing_witness:
  "get_ip_address (\<lambda>cmd. ''10.25.5.37      00:08:31  0050.569f.0c60  Vlan4'')
      ''0050.569f.0c60'' = Some ''10.25.5.37'' \<and>
   (\<exists>a b c d ws hh mm ss ws2 rest.
      ''10.25.5.37      00:08:31  0050.569f.0c60  Vlan4'' =
        ''10.25.5.37'' @ ws @ hh @ '':'' @ mm @ '':'' @ ss @ ws2 @ rest \<and>
      ''10.25.5.37'' = a @ ''.'' @ b @ ''.'' @ c @ ''.'' @ d \<and>
      fits (Rep is_space 1 None) ws \<and> fits (Rep is_space 1 None) ws2)"
proof -
  note main = address_resolution_parsing [of "''0050.569f.0c60''"]
  from main have ex: "\<forall>rest. get_ip_address
       (\<lambda>cmd. ''10.25.5.37      00:08:31  0050.569f.0c60  Vlan4'' @ rest) ''0050.569f.0c60'' =
       Some ''10.25.5.37''"
    by (elim conjE)
  from ex [rule_format, of "[]"] have m:
    "get_ip_address (\<lambda>cmd. ''10.25.5.37      00:08:31  0050.569f.0c60  Vlan4'')
      ''0050.569f.0c60'' = Some ''10.25.5.37''"
    by simp
  from main have shape: "\<forall>sc ip. get_ip_address sc ''0050.569f.0c60'' = Some ip \<longrightarrow>
      (\<exists>a b c d ws hh mm ss ws2 rest.
         sc (''show ip arp | include '' @ ''0050.569f.0c60'') =
           ip @ ws @ hh @ '':'' @ mm @ '':'' @ ss @ ws2 @ rest \<and>
         ip = a @ ''.'' @ b @ ''.'' @ c @ ''.'' @ d \<and>
         fits (Rep is_digit 1 (Some 3)) a \<and> fits (Rep is_digit 1 (Some 3)) b \<and>
         fits (Rep is_digit 1 (Some 3)) c \<and> fits (Rep is_digit 1 (Some 3)) d \<and>
         fits (Rep is_space 1 None) ws \<and>
         fits (Rep is_digit 2 (Some 2)) hh \<and> fits (Rep is_digit 2 (Some 2)) mm \<and>
         fits (Rep is_digit 2 (Some 2)) ss \<and>
         fits (Rep is_space 1 None) ws2)"
    by (elim conjE)
  from shape [rule_format, OF m] have
    "\<exists>a b c d ws hh mm ss ws2 rest.
      ''10.25.5.37      00:08:31  0050.569f.0c60  Vlan4'' =
        ''10.25.5.37'' @ ws @ hh @ '':'' @ mm @ '':'' @ ss @ ws2 @ rest \<and>
      ''10.25.5.37'' = a @ ''.'' @ b @ ''.'' @ c @ ''.'' @ d \<and>
      fits (Rep is_space 1 None) ws \<and> fits (Rep is_space 1 None) ws2"
    by blast
  with m show ?thesis by blast
qed

section \<open>Table rows and nodes\<close>

lemma node_row_total:
  assumes "0 \<le> successful_pings n" "0 \<le> failed_pings n"
  shows "\<exists>rate. node_row n =
     Inr [Some (interface n), Some (vlan n), Some (mac_address n), ip_address n, name n,
          Some rate]"
proof -
  from response_rate_returns [OF assms] obtain rate where "response_rate n = Inr rate" by blast
  then show ?thesis by (simp add: node_row_def)
qed

lemma pre_populate_rows:
  "list_all2 (\<lambda>n r. node_row n = Inr r) ns rs \<Longrightarrow>
     pre_populate_table t ns = Inr (t\<lparr>rows := rows t @ rs\<rparr>)"
proof (induction ns arbitrary: t rs)
  case Nil
  then show ?case by simp
next
  case (Cons n ns)
  then obtain r rs' where rs: "rs = r # rs'" and r: "node_row n = Inr r"
    and rest: "list_all2 (\<lambda>n r. node_row n = Inr r) ns rs'"
    by (auto simp: list_all2_Cons1)
  from Cons.IH [OF rest, of "t\<lparr>rows := rows t @ [r]\<rparr>"] r show ?case
    by (simp add: rs)
qed

lemma pre_populate_sound:
  "pre_populate_table t ns = Inr t' \<Longrightarrow>
     \<exists>rs. list_all2 (\<lambda>n r. node_row n = Inr r) ns rs \<and> t' = t\<lparr>rows := rows t @ rs\<rparr>"
proof (induction ns arbitrary: t)
  case Nil
  then show ?case by simp
next
  case (Cons n ns)
  from Cons.prems obtain r where r: "node_row n = Inr r"
    and rest: "pre_populate_table (t\<lparr>rows := rows t @ [r]\<rparr>) ns = Inr t'"
    by (auto split: sum.splits)
  from Cons.IH [OF rest] obtain rs where
    "list_all2 (\<lambda>n r. node_row n = Inr r) ns rs" "t' = t\<lparr>rows := rows t @ [r] @ rs\<rparr>"
    by auto
  with r show ?case by (intro exI [of _ "r # rs"]) simp
qed

lemma update_row_valid:
  assumes r: "node_row n = Inr r"
    and i: "- int (length (rows t)) \<le> i" "i < int (length (rows t))"
    and j: "j = nat (if i < 0 then i + int (length (rows t)) else i)"
  shows "update_row t n i = Inr (t\<lparr>rows := (rows t)[j := r]\<rparr>)" "j < length (rows t)"
  using r i by (auto simp: update_row_def Let_def j)

text \<open>
  C5. For every list of nodes with non-negative counts, whether their addresses are
  present or absent, seeding a new table succeeds and gives one row per node, row \<open>k\<close>
  being the projection of node \<open>k\<close>. On any table, \<open>update_row(node, i)\<close> with a
  valid index (a negative one counts from the end) and a node with non-negative counts
  succeeds, makes that row the projection of the node, and leaves the headers, the
  number of rows and every other row as they were, so rows and nodes stay aligned.
\<close>

theorem table_alignment:
  assumes "\<forall>n \<in> set ns. 0 \<le> successful_pings n \<and> 0 \<le> failed_pings n"
  shows "(\<exists>t. pre_populate_table Table_init ns = Inr t \<and>
            length (rows t) = length ns \<and>
            (\<forall>k < length ns. node_row (ns ! k) = Inr (rows t ! k))) \<and>
         (\<forall>t n i. 0 \<le> successful_pings n \<and> 0 \<le> failed_pings n \<and>
                  - int (length (rows t)) \<le> i \<and> i < int (length (rows t)) \<longrightarrow>
            (\<exists>t'. update_row t n i = Inr t' \<and>
                  length (rows t') = length (rows t) \<and>
                  headers t' = headers t \<and>
                  node_row n =
                    Inr (rows t' ! nat (if i < 0 then i + int (length (rows t)) else i)) \<and>
                  (\<forall>k. k \<noteq> nat (if i < 0 then i + int (length (rows t)) else i) \<longrightarrow>
                     rows t' ! k = rows t ! k)))"
proof (intro conjI allI impI)
  have "\<forall>n \<in> set ns. \<exists>r. node_row n = Inr r"
    using assms node_row_total by blast
  then have "\<exists>rs. list_all2 (\<lambda>n r. node_row n = Inr r) ns rs"
    by (induction ns) (auto simp: list_all2_Cons1)
  then obtain rs where rs: "list_all2 (\<lambda>n r. node_row n = Inr r) ns rs" by blast
  define t where "t = Table_init\<lparr>rows := rs\<rparr>"
  have seed: "pre_populate_table Table_init ns = Inr t"
    using pre_populate_rows [OF rs, of Table_init] by (simp add: t_def Table_init_def)
  have len: "length (rows t) = length ns"
    using rs by (simp add: t_def list_all2_lengthD)
  have proj: "\<forall>k < length ns. node_row (ns ! k) = Inr (rows t ! k)"
    using rs by (simp add: t_def list_all2_conv_all_nth)
  from seed len proj
  show "\<exists>t. pre_populate_table Table_init ns = Inr t \<and>
            length (rows t) = length ns \<and>
            (\<forall>k < length ns. node_row (ns ! k) = Inr (rows t ! k))" by blast
next
  fix t :: Table and n :: Node and i :: int
  assume n: "0 \<le> successful_pings n \<and> 0 \<le> failed_pings n \<and>
           - int (length (rows t)) \<le> i \<and> i < int (length (rows t))"
  from n node_row_total obtain r where r: "node_row n = Inr r" by blast
  from n have i: "- int (length (rows t)) \<le> i" "i < int (length (rows t))" by simp_all
  define j where "j = nat (if i < 0 then i + int (length (rows t)) else i)"
  from update_row_valid [OF r i j_def] have
    u: "update_row t n i = Inr (t\<lparr>rows := (rows t)[j := r]\<rparr>)" and j: "j < length (rows t)" .
  have "(rows t)[j := r] ! j = r" using j by simp
  moreover have "\<forall>k. k \<noteq> j \<longrightarrow> (rows t)[j := r] ! k = rows t ! k" by simp
  ultimately show "\<exists>t'. update_row t n i = Inr t' \<and>
                  length (rows t') = length (rows t) \<and>
                  headers t' = headers t \<and>
                  node_row n =
                    Inr (rows t' ! nat (if i < 0 then i + int (length (rows t)) else i)) \<and>
                  (\<forall>k. k \<noteq> nat (if i < 0 then i + int (length (rows t)) else i) \<longrightarrow>
                     rows t' ! k = rows t ! k)"
    unfolding j_def [symmetric] using u r by simp
qed

theorem table_alignment_witness:
  "\<exists>t. pre_populate_table Table_init
          [Node_init ''0050.569f.0c60'' (Some ''10.25.5.37'') ''Po6'' ''4'',
           Node_init ''0050.569f.0c61'' None ''Po7'' ''5''] = Inr t \<and>
        length (rows t) = 2 \<and>
        rows t ! 1 = [Some ''Po7'', Some ''5'', Some ''0050.569f.0c61'', None, None, Some ''0%''] \<and>
        (\<exists>t'. update_row t
                (ping 0 (Node_init ''0050.569f.0c60'' (Some ''10.25.5.37'') ''Po6'' ''4'')) 0 =
                Inr t' \<and>
              length (rows t') = 2 \<and> rows t' ! 1 = rows t ! 1)"
proof -
  define n1 where "n1 = Node_init ''0050.569f.0c60'' (Some ''10.25.5.37'') ''Po6'' ''4''"
  define n2 where "n2 = Node_init ''0050.569f.0c61'' None ''Po7'' ''5''"
  have ok: "\<forall>n \<in> set [n1, n2]. 0 \<le> successful_pings n \<and> 0 \<le> failed_pings n"
    by (simp add: n1_def n2_def Node_init_def)
  note main = table_alignment [OF ok]
  from main obtain t where
    seed: "pre_populate_table Table_init [n1, n2] = Inr t"
    and len: "length (rows t) = length [n1, n2]"
    and proj: "\<forall>k < length [n1, n2]. node_row ([n1, n2] ! k) = Inr (rows t ! k)"
    by blast
  from proj [rule_format, of 1] have "node_row n2 = Inr (rows t ! 1)" by simp
  then have row: "rows t ! 1 =
      [Some ''Po7'', Some ''5'', Some ''0050.569f.0c61'', None, None, Some ''0%'']"
    by (simp add: n2_def Node_init_def node_row_def response_rate_def)
  have "0 \<le> successful_pings (ping 0 n1) \<and> 0 \<le> failed_pings (ping 0 n1) \<and>
        - int (length (rows t)) \<le> 0 \<and> 0 < int (length (rows t))"
    by (simp add: n1_def Node_init_def ping_def len)
  with main obtain t' where "update_row t (ping 0 n1) 0 = Inr t'"
    "length (rows t') = length (rows t)"
    "\<forall>k. k \<noteq> nat (if (0::int) < 0 then 0 + int (length (rows t)) else 0) \<longrightarrow>
       rows t' ! k = rows t ! k"
    by blast
  then have "\<exists>t'. update_row t (ping 0 n1) 0 = Inr t' \<and> length (rows t') = 2 \<and>
      rows t' ! 1 = rows t ! 1"
    using len by auto
  with seed len row show ?thesis
    unfolding n1_def n2_def by auto
qed

section \<open>Nodes without an address in the monitor loop\<close>

lemma ping_keeps_address: "ip_address (ping response n) = ip_address n"
  by (simp add: ping_def)

lemma probe_commands_cong:
  "map ip_address xs = map ip_address ys \<Longrightarrow>
     map ping_command (filter (\<lambda>n. ip_address n \<noteq> None) xs) =
     map ping_command (filter (\<lambda>n. ip_address n \<noteq> None) ys)"
proof (induction xs arbitrary: ys)
  case Nil
  then show ?case by simp
next
  case (Cons x xs)
  then obtain y ys' where "ys = y # ys'" "ip_address x = ip_address y"
    "map ip_address xs = map ip_address ys'" by (cases ys) auto
  with Cons.IH [of ys'] show ?case by (simp add: ping_command_def)
qed

lemma map_update_same: "f y = f (xs ! k) \<Longrightarrow> map f (xs[k := y]) = map f xs"
  by (cases "k < length xs") (simp_all add: map_update list_update_same_conv list_update_beyond)

lemma loop_body_step:
  assumes "loop_body env start k (idx, st) = Inr (idx', st')"
  shows "idx' = idx + 1"
    and "length (nodes st') = length (nodes st)"
    and "length (rows (table st')) = length (rows (table st))"
    and "map ip_address (nodes st') = map ip_address (nodes st)"
    and "shell_log st' = shell_log st @
           (if ip_address (nodes st ! k) = None then [] else [ping_command (nodes st ! k)])"
    and "ip_address (nodes st ! k) = None \<Longrightarrow> st' = st"
    and "\<And>i. i \<noteq> k \<Longrightarrow> nodes st' ! i = nodes st ! i"
    and "\<And>i. 0 \<le> idx \<Longrightarrow> int i \<noteq> idx \<Longrightarrow> rows (table st') ! i = rows (table st) ! i"
  using assms
  by (auto simp: loop_body_def Let_def update_row_def ping_keeps_address map_update_same
           split: if_splits sum.splits)

lemma for_nodes_range:
  assumes "for_nodes env start [a..<a + m] (int a, st) = Inr (idx', st')"
    and "a + m \<le> length (nodes st)"
  shows "idx' = int (a + m) \<and>
         length (nodes st') = length (nodes st) \<and>
         length (rows (table st')) = length (rows (table st)) \<and>
         map ip_address (nodes st') = map ip_address (nodes st) \<and>
         shell_log st' = shell_log st @
           map ping_command (filter (\<lambda>n. ip_address n \<noteq> None) (take m (drop a (nodes st)))) \<and>
         (\<forall>i < length (nodes st).
            i < a \<or> a + m \<le> i \<or> ip_address (nodes st ! i) = None \<longrightarrow>
            nodes st' ! i = nodes st ! i \<and> rows (table st') ! i = rows (table st) ! i)"
  using assms
proof (induction m arbitrary: a st)
  case 0
  then show ?case by simp
next
  case (Suc m)
  have range: "[a..<a + Suc m] = a # [Suc a..<Suc a + m]" by (simp add: upt_rec)
  from Suc.prems(1) obtain idx1 st1 where
    b: "loop_body env start a (int a, st) = Inr (idx1, st1)"
    and rest: "for_nodes env start [Suc a..<Suc a + m] (idx1, st1) = Inr (idx', st')"
    unfolding range by (auto split: sum.splits)
  note s = loop_body_step [OF b]
  have idx1: "idx1 = int (Suc a)" using s(1) by simp
  have len1: "Suc a + m \<le> length (nodes st1)" using Suc.prems(2) s(2) by simp
  note ih = Suc.IH [OF rest [unfolded idx1] len1]
  have a_lt: "a < length (nodes st)" using Suc.prems(2) by simp
  have tk: "take (Suc m) (drop a (nodes st)) = nodes st ! a # take m (drop (Suc a) (nodes st))"
    using a_lt by (simp add: Cons_nth_drop_Suc [symmetric])
  have "map ip_address (take m (drop (Suc a) (nodes st1))) =
        map ip_address (take m (drop (Suc a) (nodes st)))"
    using s(4) by (simp add: take_map [symmetric] drop_map [symmetric])
  from probe_commands_cong [OF this] have cmds:
    "map ping_command (filter (\<lambda>n. ip_address n \<noteq> None) (take m (drop (Suc a) (nodes st1)))) =
     map ping_command (filter (\<lambda>n. ip_address n \<noteq> None) (take m (drop (Suc a) (nodes st))))" .
  have log: "shell_log st' = shell_log st @
      map ping_command (filter (\<lambda>n. ip_address n \<noteq> None) (take (Suc m) (drop a (nodes st))))"
    using ih s(5) by (simp add: cmds tk del: not_None_eq)
  have frame: "nodes st' ! i = nodes st ! i \<and> rows (table st') ! i = rows (table st) ! i"
    if i: "i < length (nodes st)"
      and c: "i < a \<or> a + Suc m \<le> i \<or> ip_address (nodes st ! i) = None" for i
  proof -
    have ip1: "ip_address (nodes st1 ! i) = ip_address (nodes st ! i)"
      using s(4) s(2) i by (metis nth_map)
    have i1: "i < length (nodes st1)" using i s(2) by simp
    have c1: "i < Suc a \<or> Suc a + m \<le> i \<or> ip_address (nodes st1 ! i) = None"
      using c ip1 by auto
    from ih i1 c1 have later:
      "nodes st' ! i = nodes st1 ! i \<and> rows (table st') ! i = rows (table st1) ! i" by blast
    show ?thesis
    proof (cases "i = a")
      case True
      with c have "ip_address (nodes st ! a) = None" by auto
      from s(6) [OF this] later show ?thesis by simp
    next
      case False
      then have "int i \<noteq> int a" by simp
      with s(7) [OF False] s(8) [of i] later show ?thesis by simp
    qed
  qed
  from ih s(2,3,4) log frame show ?case by (simp del: not_None_eq)
qed

lemma monitor_cycle_frame:
  assumes "monitor_cycle env start st = Inr st'"
  shows "length (nodes st') = length (nodes st) \<and>
         length (rows (table st')) = length (rows (table st)) \<and>
         map ip_address (nodes st') = map ip_address (nodes st) \<and>
         shell_log st' = shell_log st @
           map ping_command (filter (\<lambda>n. ip_address n \<noteq> None) (nodes st)) \<and>
         (\<forall>i < length (nodes st). ip_address (nodes st ! i) = None \<longrightarrow>
            nodes st' ! i = nodes st ! i \<and> rows (table st') ! i = rows (table st) ! i)"
proof -
  from assms obtain idx' where
    f: "for_nodes env start [0..<0 + length (nodes st)] (int 0, st) = Inr (idx', st')"
    by (auto simp: monitor_cycle_def split: sum.splits)
  from for_nodes_range [OF f] show ?thesis by (simp del: not_None_eq)
qed

lemma monitor_loop_frame:
  assumes "monitor_loop env start c st = Inr st'"
  shows "length (nodes st') = length (nodes st) \<and>
         length (rows (table st')) = length (rows (table st)) \<and>
         map ip_address (nodes st') = map ip_address (nodes st) \<and>
         shell_log st' = shell_log st @
           concat (replicate c
             (map ping_command (filter (\<lambda>n. ip_address n \<noteq> None) (nodes st)))) \<and>
         (\<forall>i < length (nodes st). ip_address (nodes st ! i) = None \<longrightarrow>
            nodes st' ! i = nodes st ! i \<and> rows (table st') ! i = rows (table st) ! i)"
  using assms
proof (induction c arbitrary: st)
  case 0
  then show ?case by simp
next
  case (Suc c)
  from Suc.prems obtain st1 where c1: "monitor_cycle env start st = Inr st1"
    and rest: "monitor_loop env start c st1 = Inr st'"
    by (auto split: sum.splits)
  note f = monitor_cycle_frame [OF c1]
  note ih = Suc.IH [OF rest]
  from f have same: "map ip_address (nodes st1) = map ip_address (nodes st)" by blast
  note cmds = probe_commands_cong [OF same]
  have frame: "nodes st' ! i = nodes st ! i \<and> rows (table st') ! i = rows (table st) ! i"
    if i: "i < length (nodes st)" and n: "ip_address (nodes st ! i) = None" for i
  proof -
    from f i n have a: "nodes st1 ! i = nodes st ! i" "rows (table st1) ! i = rows (table st) ! i"
      by blast+
    from f i have "i < length (nodes st1)" by simp
    moreover from a n have "ip_address (nodes st1 ! i) = None" by simp
    ultimately have "nodes st' ! i = nodes st1 ! i \<and> rows (table st') ! i = rows (table st1) ! i"
      using ih by blast
    with a show ?thesis by simp
  qed
  from f ih frame show ?case by (simp add: cmds del: not_None_eq)
qed

lemma ping_counts:
  "0 \<le> successful_pings n \<Longrightarrow> 0 \<le> failed_pings n \<Longrightarrow>
     0 \<le> successful_pings (ping response n) \<and> 0 \<le> failed_pings (ping response n)"
  by (simp add: ping_def)

lemma loop_body_returns:
  assumes k: "k < length (nodes st)" and al: "length (rows (table st)) = length (nodes st)"
    and ok: "\<forall>n \<in> set (nodes st). 0 \<le> successful_pings n \<and> 0 \<le> failed_pings n"
  shows "\<exists>st'. loop_body env start k (int k, st) = Inr (int (Suc k), st') \<and>
           length (rows (table st')) = length (nodes st') \<and>
           length (nodes st') = length (nodes st) \<and>
           (\<forall>n \<in> set (nodes st'). 0 \<le> successful_pings n \<and> 0 \<le> failed_pings n)"
proof (cases "ip_address (nodes st ! k) = None")
  case True
  with al ok show ?thesis by (simp add: loop_body_def Let_def)
next
  case False
  define node' where
    "node' = ping (os_system env (length (shell_log st)) (ping_command (nodes st ! k)))
               (nodes st ! k)"
  have "nodes st ! k \<in> set (nodes st)" using k by simp
  with ok have "0 \<le> successful_pings node' \<and> 0 \<le> failed_pings node'"
    unfolding node'_def by (intro ping_counts) simp_all
  then have ok': "0 \<le> successful_pings node'" "0 \<le> failed_pings node'" by simp_all
  from node_row_total [OF ok'] obtain r where r: "node_row node' = Inr r" by blast
  have i: "- int (length (rows (table st))) \<le> int k" "int k < int (length (rows (table st)))"
    using k al by simp_all
  have j: "k = nat (if int k < 0 then int k + int (length (rows (table st))) else int k)" by simp
  from update_row_valid [OF r i j] have
    u: "update_row (table st) node' (int k) = Inr (table st\<lparr>rows := (rows (table st))[k := r]\<rparr>)"
    by simp
  have "\<forall>n \<in> set ((nodes st)[k := node']). 0 \<le> successful_pings n \<and> 0 \<le> failed_pings n"
    using ok ok' by (auto dest!: set_update_subset_insert [THEN subsetD])
  with False u al show ?thesis
    by (simp add: loop_body_def Let_def node'_def [symmetric] del: not_None_eq)
qed

lemma for_nodes_returns:
  assumes "a + m \<le> length (nodes st)" and "length (rows (table st)) = length (nodes st)"
    and "\<forall>n \<in> set (nodes st). 0 \<le> successful_pings n \<and> 0 \<le> failed_pings n"
  shows "\<exists>idx' st'. for_nodes env start [a..<a + m] (int a, st) = Inr (idx', st') \<and>
           length (rows (table st')) = length (nodes st') \<and>
           length (nodes st') = length (nodes st) \<and>
           (\<forall>n \<in> set (nodes st'). 0 \<le> successful_pings n \<and> 0 \<le> failed_pings n)"
  using assms
proof (induction m arbitrary: a st)
  case 0
  then show ?case by simp
next
  case (Suc m)
  have range: "[a..<a + Suc m] = a # [Suc a..<Suc a + m]" by (simp add: upt_rec)
  have "a < length (nodes st)" using Suc.prems(1) by simp
  from loop_body_returns [OF this Suc.prems(2,3), of env start] obtain st1 where
    b: "loop_body env start a (int a, st) = Inr (int (Suc a), st1)"
    and al1: "length (rows (table st1)) = length (nodes st1)"
    and len1: "length (nodes st1) = length (nodes st)"
    and ok1: "\<forall>n \<in> set (nodes st1). 0 \<le> successful_pings n \<and> 0 \<le> failed_pings n"
    by blast
  have "Suc a + m \<le> length (nodes st1)" using Suc.prems(1) len1 by simp
  from Suc.IH [OF this al1 ok1] len1 b show ?case
    unfolding range by auto
qed

lemma monitor_cycle_returns:
  assumes "length (rows (table st)) = length (nodes st)"
    and "\<forall>n \<in> set (nodes st). 0 \<le> successful_pings n \<and> 0 \<le> failed_pings n"
  shows "\<exists>st'. monitor_cycle env start st = Inr st' \<and>
           length (rows (table st')) = length (nodes st') \<and>
           (\<forall>n \<in> set (nodes st'). 0 \<le> successful_pings n \<and> 0 \<le> failed_pings n)"
proof -
  from for_nodes_returns [of 0 "length (nodes st)" st env start, OF _ assms]
  obtain idx' st' where "for_nodes env start [0..<length (nodes st)] (0, st) = Inr (idx', st')"
    "length (rows (table st')) = length (nodes st')"
    "\<forall>n \<in> set (nodes st'). 0 \<le> successful_pings n \<and> 0 \<le> failed_pings n"
    by auto
  then show ?thesis by (auto simp: monitor_cycle_def)
qed

lemma monitor_loop_returns:
  assumes "length (rows (table st)) = length (nodes st)"
    and "\<forall>n \<in> set (nodes st). 0 \<le> successful_pings n \<and> 0 \<le> failed_pings n"
  shows "\<exists>st'. monitor_loop env start c st = Inr st' \<and>
           length (rows (table st')) = length (nodes st') \<and>
           (\<forall>n \<in> set (nodes st'). 0 \<le> successful_pings n \<and> 0 \<le> failed_pings n)"
  using assms
proof (induction c arbitrary: st)
  case 0
  then show ?case by simp
next
  case (Suc c)
  from monitor_cycle_returns [OF Suc.prems, of env start] obtain st1 where
    "monitor_cycle env start st = Inr st1" "length (rows (table st1)) = length (nodes st1)"
    "\<forall>n \<in> set (nodes st1). 0 \<le> successful_pings n \<and> 0 \<le> failed_pings n" by blast
  with Suc.IH [of st1] show ?case by auto
qed

lemma seed_monitor_rows:
  assumes "seed_monitor ns fs = Inr st"
  shows "nodes st = ns \<and> length (rows (table st)) = length ns \<and>
         (\<forall>i < length ns. node_row (ns ! i) = Inr (rows (table st) ! i))"
proof -
  from assms obtain t where t: "pre_populate_table Table_init ns = Inr t"
    and st: "st = \<lparr>nodes = ns, table = t, files = fs, shell_log = []\<rparr>"
    by (auto simp: seed_monitor_def split: sum.splits)
  from pre_populate_sound [OF t] obtain rs where
    rs: "list_all2 (\<lambda>n r. node_row n = Inr r) ns rs" and "t = Table_init\<lparr>rows := rows Table_init @ rs\<rparr>"
    by blast
  then have "rows t = rs" by (simp add: Table_init_def)
  with rs st show ?thesis by (simp add: list_all2_conv_all_nth)
qed

text \<open>
  C7. Take a node of the device that has no network address. After any number of
  passes of the monitor loop the node is what it was (counters and last-outcome flag
  included) and so is the row at its index, which for a seeded table is the node's
  seeded projection; no row is added or removed. The shell commands of the passes are
  exactly the probes of the nodes that have an address, one per such node and pass, in
  order: the node without an address is never probed. When rows and nodes are aligned
  and the counts are non-negative, the passes do complete.
\<close>

theorem absent_address_skipped:
  assumes "i < length (nodes st)" and "ip_address (nodes st ! i) = None"
  shows "(\<forall>st'. monitor_loop env start c st = Inr st' \<longrightarrow>
            nodes st' ! i = nodes st ! i \<and>
            rows (table st') ! i = rows (table st) ! i \<and>
            length (nodes st') = length (nodes st) \<and>
            length (rows (table st')) = length (rows (table st)) \<and>
            shell_log st' = shell_log st @
              concat (replicate c
                (map ping_command (filter (\<lambda>n. ip_address n \<noteq> None) (nodes st))))) \<and>
         (length (rows (table st)) = length (nodes st) \<and>
          (\<forall>n \<in> set (nodes st). 0 \<le> successful_pings n \<and> 0 \<le> failed_pings n) \<longrightarrow>
            (\<exists>st'. monitor_loop env start c st = Inr st')) \<and>
         (\<forall>fs. seed_monitor (nodes st) fs = Inr st \<longrightarrow>
            node_row (nodes st ! i) = Inr (rows (table st) ! i))"
proof (intro conjI allI impI)
  fix st'
  assume run: "monitor_loop env start c st = Inr st'"
  note f = monitor_loop_frame [OF run]
  from f assms show "nodes st' ! i = nodes st ! i" by blast
  from f assms show "rows (table st') ! i = rows (table st) ! i" by blast
  from f show "length (nodes st') = length (nodes st)" by blast
  from f show "length (rows (table st')) = length (rows (table st))" by blast
  from f show "shell_log st' = shell_log st @
              concat (replicate c
                (map ping_command (filter (\<lambda>n. ip_address n \<noteq> None) (nodes st))))" by blast
next
  assume "length (rows (table st)) = length (nodes st) \<and>
          (\<forall>n \<in> set (nodes st). 0 \<le> successful_pings n \<and> 0 \<le> failed_pings n)"
  then have a: "length (rows (table st)) = length (nodes st)"
    and b: "\<forall>n \<in> set (nodes st). 0 \<le> successful_pings n \<and> 0 \<le> failed_pings n" by simp_all
  from monitor_loop_returns [OF a b, of env start c] show "\<exists>st'. monitor_loop env start c st = Inr st'" by blast
next
  fix fs
  assume "seed_monitor (nodes st) fs = Inr st"
  from seed_monitor_rows [OF this] assms(1)
  show "node_row (nodes st ! i) = Inr (rows (table st) ! i)" by blast
qed

theorem absent_address_skipped_witness:
  "\<exists>st'. monitor_loop
            \<lparr>os_system = (\<lambda>k cmd. int k), now = (\<lambda>k. k), str_dt = (\<lambda>t. ''now''),
             tabulate = (\<lambda>rs hs. concat hs)\<rparr>
            (0::nat) 2
            \<lparr>nodes = [Node_init ''0050.569f.0c60'' (Some ''10.25.5.37'') ''Po6'' ''4'',
                      Node_init ''0050.569f.0c61'' None ''Po7'' ''5''],
             table = \<lparr>headers = headers Table_init,
                      rows = [[Some ''Po6'', Some ''4'', Some ''0050.569f.0c60'',
                               Some ''10.25.5.37'', None, Some ''0%''],
                              [Some ''Po7'', Some ''5'', Some ''0050.569f.0c61'', None, None,
                               Some ''0%'']]\<rparr>,
             files = Map.empty, shell_log = []\<rparr> = Inr st' \<and>
          nodes st' ! 1 = Node_init ''0050.569f.0c61'' None ''Po7'' ''5'' \<and>
          rows (table st') ! 1 =
            [Some ''Po7'', Some ''5'', Some ''0050.569f.0c61'', None, None, Some ''0%''] \<and>
          shell_log st' = [''ping -n 1 -w 2 10.25.5.37 >> output.txt'',
                           ''ping -n 1 -w 2 10.25.5.37 >> output.txt'']"
proof -
  define E :: "nat env" where
    "E = \<lparr>os_system = (\<lambda>k cmd. int k), now = (\<lambda>k. k), str_dt = (\<lambda>t. ''now''),
          tabulate = (\<lambda>rs hs. concat hs)\<rparr>"
  define S where
    "S = \<lparr>nodes = [Node_init ''0050.569f.0c60'' (Some ''10.25.5.37'') ''Po6'' ''4'',
                   Node_init ''0050.569f.0c61'' None ''Po7'' ''5''],
          table = \<lparr>headers = headers Table_init,
                   rows = [[Some ''Po6'', Some ''4'', Some ''0050.569f.0c60'',
                            Some ''10.25.5.37'', None, Some ''0%''],
                           [Some ''Po7'', Some ''5'', Some ''0050.569f.0c61'', None, None,
                            Some ''0%'']]\<rparr>,
          files = Map.empty, shell_log = []\<rparr>"
  have i: "1 < length (nodes S)" and a: "ip_address (nodes S ! 1) = None"
    by (simp_all add: S_def Node_init_def)
  have ok: "length (rows (table S)) = length (nodes S) \<and>
     (\<forall>n \<in> set (nodes S). 0 \<le> successful_pings n \<and> 0 \<le> failed_pings n)"
    by (simp add: S_def Node_init_def)
  note main = absent_address_skipped [OF i a, of E 0 2]
  from main ok obtain st' where run: "monitor_loop E 0 2 S = Inr st'" by blast
  with main have "nodes st' ! 1 = nodes S ! 1" "rows (table st') ! 1 = rows (table S) ! 1"
    "shell_log st' = shell_log S @
       concat (replicate 2 (map ping_command (filter (\<lambda>n. ip_address n \<noteq> None) (nodes S))))"
    by blast+
  then have "nodes st' ! 1 = Node_init ''0050.569f.0c61'' None ''Po7'' ''5''"
    "rows (table st') ! 1 =
       [Some ''Po7'', Some ''5'', Some ''0050.569f.0c61'', None, None, Some ''0%'']"
    "shell_log st' = [''ping -n 1 -w 2 10.25.5.37 >> output.txt'',
                      ''ping -n 1 -w 2 10.25.5.37 >> output.txt'']"
    by (simp_all add: S_def Node_init_def ping_command_def fmt_opt_def numeral_2_eq_2)
  with run show ?thesis unfolding E_def S_def by blast
qed

end
